theory Spec2Isabelle
  imports Main "HOL-Library.Word"
begin

unbundle bit_operations_syntax

section \<open>The ellipses package: range tokens, pattern extraction, expansion\<close>

text \<open>
  A shallow embedding of \<^verbatim>\<open>ellipses/ellipses.go\<close>. Go strings are byte sequences,
  modelled as \<^typ>\<open>string\<close>; \<^verbatim>\<open>uint64\<close> is \<^typ>\<open>64 word\<close>. A Go function returning
  \<^verbatim>\<open>(value, error)\<close> becomes a sum with the error on the left, or a pair with an
  optional error where the source returns both. A computation that does not return is
  \<^term>\<open>None\<close>.
\<close>

subsection \<open>Library functions of package strings\<close>

text \<open>\<^verbatim>\<open>strings.HasPrefix\<close> and \<^verbatim>\<open>strings.HasSuffix\<close>.\<close>

definition HasPrefix :: "string \<Rightarrow> string \<Rightarrow> bool" where
  "HasPrefix s p = (length p \<le> length s \<and> take (length p) s = p)"

definition HasSuffix :: "string \<Rightarrow> string \<Rightarrow> bool" where
  "HasSuffix s p = (length p \<le> length s \<and> drop (length s - length p) s = p)"

text \<open>\<^verbatim>\<open>strings.Contains\<close>: some suffix of \<open>s\<close> starts with \<open>substr\<close>.\<close>

fun Contains :: "string \<Rightarrow> string \<Rightarrow> bool" where
  "Contains [] substr = (substr = [])"
| "Contains (c # cs) substr = (HasPrefix (c # cs) substr \<or> Contains cs substr)"

text \<open>\<^verbatim>\<open>strings.TrimPrefix\<close> and \<^verbatim>\<open>strings.TrimSuffix\<close> remove one occurrence, if present.\<close>

definition TrimPrefix :: "string \<Rightarrow> string \<Rightarrow> string" where
  "TrimPrefix s p = (if HasPrefix s p then drop (length p) s else s)"

definition TrimSuffix :: "string \<Rightarrow> string \<Rightarrow> string" where
  "TrimSuffix s p = (if HasSuffix s p then take (length s - length p) s else s)"

text \<open>
  \<^verbatim>\<open>strings.Count\<close> for a non-empty \<open>substr\<close>: the number of non-overlapping
  occurrences, found from the left. (For an empty \<open>substr\<close> Go counts runes; the
  package never calls it so.)
\<close>

function Count :: "string \<Rightarrow> string \<Rightarrow> nat" where
  "Count [] substr = 0"
| "Count (c # cs) substr =
     (if substr \<noteq> [] \<and> HasPrefix (c # cs) substr
      then Suc (Count (drop (length substr - 1) cs) substr)
      else Count cs substr)"
  by pat_completeness auto
termination
  by (relation "measure (\<lambda>(s, substr). length s)") auto

text \<open>
  \<^verbatim>\<open>strings.Split\<close> for a non-empty separator: the pieces between the non-overlapping
  occurrences found from the left; \<open>acc\<close> holds the current piece, reversed.
\<close>

function splitFrom :: "string \<Rightarrow> string \<Rightarrow> string \<Rightarrow> string list" where
  "splitFrom acc [] sep = [rev acc]"
| "splitFrom acc (c # cs) sep =
     (if sep \<noteq> [] \<and> HasPrefix (c # cs) sep
      then rev acc # splitFrom [] (drop (length sep - 1) cs) sep
      else splitFrom (c # acc) cs sep)"
  by pat_completeness auto
termination
  by (relation "measure (\<lambda>(acc, s, sep). length s)") auto

definition Split :: "string \<Rightarrow> string \<Rightarrow> string list" where
  "Split s sep = splitFrom [] s sep"

subsection \<open>strconv.ParseUint\<close>

datatype numerr = ErrSyntax | ErrRange

text \<open>
  The errors of the package: the three \<^verbatim>\<open>errors.New("invalid argument")\<close> values, the
  \<^verbatim>\<open>*strconv.NumError\<close> of \<^verbatim>\<open>ParseUint\<close> (the text it failed on and the cause), the
  \<^verbatim>\<open>fmt.Errorf\<close> value of a range with start above end (both values), the sentinel
  \<^verbatim>\<open>errFormat\<close>, and the value of \<^verbatim>\<open>ErrInvalidEllipsesFormatFn(arg)\<close>.
\<close>

datatype error =
    InvalidArgument
  | NumError string numerr
  | RangeOrderError "64 word" "64 word"
  | errFormat
  | InvalidEllipsesFormat string

text \<open>The value of a byte, and \<^verbatim>\<open>lower(c) = c | ('x' - 'X')\<close>.\<close>

definition byte :: "char \<Rightarrow> nat" where
  "byte c = of_char c"

definition lower :: "nat \<Rightarrow> nat" where
  "lower c = c OR 32"

text \<open>
  The digit loop of \<^verbatim>\<open>ParseUint(s, base, 64)\<close> for \<open>base\<close> 10 or 16 (no underscores,
  no base prefix: those belong to base 0). \<open>n\<close> is the value read so far;
  \<open>cutoff = maxUint64/base + 1\<close>. With bit size 64, \<open>maxVal\<close> is the largest word, so
  the test \<open>n1 > maxVal\<close> of the source never holds and overflow of the addition
  shows as \<open>n1 < n\<close>.
\<close>

fun parseDigits :: "64 word \<Rightarrow> 64 word \<Rightarrow> string \<Rightarrow> numerr + 64 word" where
  "parseDigits base n [] = Inr n"
| "parseDigits base n (c # cs) =
     (if 48 \<le> byte c \<and> byte c \<le> 57 \<or> 97 \<le> lower (byte c) \<and> lower (byte c) \<le> 122
      then
        (let d = (if 48 \<le> byte c \<and> byte c \<le> 57 then byte c - 48 else lower (byte c) - 97 + 10)
         in if d \<ge> unat base then Inl ErrSyntax
            else if n \<ge> (- 1) div base + 1 then Inl ErrRange
            else (let n0 = n * base; n1 = n0 + of_nat d
                  in if n1 < n0 then Inl ErrRange else parseDigits base n1 cs))
      else Inl ErrSyntax)"

definition ParseUint :: "string \<Rightarrow> 64 word \<Rightarrow> error + 64 word" where
  "ParseUint s base =
     (if s = [] then Inl (NumError s ErrSyntax)
      else case parseDigits base 0 s of
             Inl e \<Rightarrow> Inl (NumError s e)
           | Inr n \<Rightarrow> Inr n)"

subsection \<open>fmt.Sprintf for the verbs the package uses\<close>

definition digitChar :: "nat \<Rightarrow> char" where
  "digitChar d = ''0123456789abcdef'' ! d"

text \<open>The digits of \<open>u\<close> in base 10 or 16, most significant first, lowercase.\<close>

function formatBits :: "nat \<Rightarrow> nat \<Rightarrow> string" where
  "formatBits base u =
     (if base < 2 \<or> u < base then [digitChar u]
      else formatBits base (u div base) @ [digitChar (u mod base)])"
  by pat_completeness auto
termination
  by (relation "measure (\<lambda>(base, u). u)") auto

declare formatBits.simps [simp del]

text \<open>
  \<^verbatim>\<open>Sprintf("%d", i)\<close> and \<^verbatim>\<open>Sprintf("%x", i)\<close>: the digits.
\<close>

definition Sprintf_d :: "64 word \<Rightarrow> string" where
  "Sprintf_d i = formatBits 10 (unat i)"

definition Sprintf_x :: "64 word \<Rightarrow> string" where
  "Sprintf_x i = formatBits 16 (unat i)"

text \<open>
  \<^verbatim>\<open>Sprintf(Sprintf("%%0%dd", w), i)\<close> and \<^verbatim>\<open>Sprintf(Sprintf("%%0%dx", w), i)\<close>. The
  inner call writes the format: \<^verbatim>\<open>%0\<close>, the decimal digits of \<open>w\<close>, the verb. The
  outer call reads it back: the flag \<open>0\<close>, then the width, with \<^verbatim>\<open>parsenum\<close>,
  digit by digit up to the verb. Before it takes a digit, \<^verbatim>\<open>parsenum\<close> tests the
  number read so far with \<^verbatim>\<open>tooLarge\<close>, and above 1000000 it gives up and skips to
  the end of the format (\<^term>\<open>None\<close>). With the width read, the digits of \<open>i\<close> are
  padded on the left with \<open>0\<close> up to the width and never cut. With the width given
  up, no verb is reached: the output is \<^verbatim>\<open>%!(NOVERB)\<close> followed by
  \<^verbatim>\<open>%!(EXTRA uint64=\<close>, the argument that was not used, written with the verb
  \<^verbatim>\<open>%v\<close>, hence in base 10 whatever the verb of the format was, and \<^verbatim>\<open>)\<close>.
\<close>

fun parsenum :: "int \<Rightarrow> string \<Rightarrow> int option" where
  "parsenum num [] = Some num"
| "parsenum num (c # cs) =
     (if 48 \<le> byte c \<and> byte c \<le> 57
      then (if num > 1000000 then None else parsenum (num * 10 + int (byte c - 48)) cs)
      else Some num)"

definition zeroPad :: "nat \<Rightarrow> string \<Rightarrow> string" where
  "zeroPad w s = replicate (w - length s) (CHR ''0'') @ s"

definition noVerbExtra :: "64 word \<Rightarrow> string" where
  "noVerbExtra i = ''%!(NOVERB)%!(EXTRA uint64='' @ formatBits 10 (unat i) @ '')''"

definition Sprintf_0d :: "nat \<Rightarrow> 64 word \<Rightarrow> string" where
  "Sprintf_0d w i =
     (case parsenum 0 (formatBits 10 w @ ''d'') of
        Some wid \<Rightarrow> zeroPad (nat wid) (formatBits 10 (unat i))
      | None \<Rightarrow> noVerbExtra i)"

definition Sprintf_0x :: "nat \<Rightarrow> 64 word \<Rightarrow> string" where
  "Sprintf_0x w i =
     (case parsenum 0 (formatBits 10 w @ ''x'') of
        Some wid \<Rightarrow> zeroPad (nat wid) (formatBits 16 (unat i))
      | None \<Rightarrow> noVerbExtra i)"

subsection \<open>parseEllipsesRange\<close>

definition openBraces :: string where "openBraces = ''{''"
definition closeBraces :: string where "closeBraces = ''}''"
definition ellipses :: string where "ellipses = ''...''"

text \<open>
  The body of the loop at lines 83 to 97: the label of \<open>i\<close>, from the two boundary
  texts and the flag \<open>hexadecimal\<close>.
\<close>

definition label :: "string \<Rightarrow> string \<Rightarrow> bool \<Rightarrow> 64 word \<Rightarrow> string" where
  "label r0 r1 hexadecimal i =
     (if HasPrefix r0 ''0'' \<and> length r0 > 1 \<or> HasPrefix r1 ''0''
      then (if hexadecimal then Sprintf_0x (length r1) i else Sprintf_0d (length r1) i)
      else (if hexadecimal then Sprintf_x i else Sprintf_d i))"

text \<open>
  The loop \<^verbatim>\<open>for i := start; i <= end; i++\<close> on \<^verbatim>\<open>uint64\<close>: \<open>i + 1\<close> wraps around,
  so the loop is a partial function and \<^term>\<open>None\<close> stands for a run that never leaves it.
\<close>

partial_function (option) seqLoop ::
  "string \<Rightarrow> string \<Rightarrow> bool \<Rightarrow> 64 word \<Rightarrow> 64 word \<Rightarrow> string list \<Rightarrow> string list option" where
  "seqLoop r0 r1 hexadecimal i end seq =
     (if i \<le> end
      then seqLoop r0 r1 hexadecimal (i + 1) end (seq @ [label r0 r1 hexadecimal i])
      else Some seq)"

declare seqLoop.simps [code]

text \<open>
  Lines 61 to 68, and again lines 70 to 77, read one boundary: its decimal value, or
  else its hexadecimal value, in which case \<open>hexadecimal\<close> is set; the error of the
  hexadecimal attempt when both fail. The second component tells whether the
  boundary set the flag.
\<close>

definition parseBoundary :: "string \<Rightarrow> error + (64 word \<times> bool)" where
  "parseBoundary s =
     (case ParseUint s 10 of
        Inr v \<Rightarrow> Inr (v, False)
      | Inl _ \<Rightarrow>
          (case ParseUint s 16 of
             Inr v \<Rightarrow> Inr (v, True)
           | Inl err \<Rightarrow> Inl err))"

definition parseEllipsesRange :: "string \<Rightarrow> (error + string list) option" where
  "parseEllipsesRange pattern =
     (if \<not> Contains pattern openBraces then Some (Inl InvalidArgument)
      else if \<not> Contains pattern closeBraces then Some (Inl InvalidArgument)
      else
        (let pattern1 = TrimPrefix pattern openBraces;
             pattern2 = TrimSuffix pattern1 closeBraces;
             ellipsesRange = Split pattern2 ellipses
         in if length ellipsesRange \<noteq> 2 then Some (Inl InvalidArgument)
            else
              (case parseBoundary (ellipsesRange ! 0) of
                 Inl err \<Rightarrow> Some (Inl err)
               | Inr (start, hex0) \<Rightarrow>
                   (case parseBoundary (ellipsesRange ! 1) of
                      Inl err \<Rightarrow> Some (Inl err)
                    | Inr (end, hex1) \<Rightarrow>
                        if start > end then Some (Inl (RangeOrderError start end))
                        else map_option Inr
                          (seqLoop (ellipsesRange ! 0) (ellipsesRange ! 1) (hex0 \<or> hex1)
                             start end [])))))"

subsection \<open>The regular expression regexpEllipses\<close>

text \<open>
  \<^verbatim>\<open>(.*)({[0-9a-z]*\.\.\.[0-9a-z]*})(.*)\<close> under Go's leftmost-first matching. A
  character of the class \<^verbatim>\<open>[0-9a-z]\<close>, and \<^verbatim>\<open>.\<close>, which matches every byte but the
  newline.
\<close>

definition isRangeChar :: "char \<Rightarrow> bool" where
  "isRangeChar c = (48 \<le> byte c \<and> byte c \<le> 57 \<or> 97 \<le> byte c \<and> byte c \<le> 122)"

definition isDot :: "char \<Rightarrow> bool" where
  "isDot c = (c \<noteq> CHR 0x0A)"

text \<open>
  The second group, \<^verbatim>\<open>{[0-9a-z]*\.\.\.[0-9a-z]*}\<close>, matched at the start of \<open>s\<close>: the
  text matched and the rest. Each starred class takes its longest run: the character
  that must follow (a dot, the closing brace) is outside the class, so no shorter run
  can match.
\<close>

definition matchSpan :: "string \<Rightarrow> (string \<times> string) option" where
  "matchSpan s =
     (case s of
        [] \<Rightarrow> None
      | c # s1 \<Rightarrow>
          if c \<noteq> CHR ''{'' then None
          else
            (let a = takeWhile isRangeChar s1; s2 = dropWhile isRangeChar s1
             in if \<not> HasPrefix s2 ''...'' then None
                else
                  (let s3 = drop 3 s2; b = takeWhile isRangeChar s3; s4 = dropWhile isRangeChar s3
                   in case s4 of
                        [] \<Rightarrow> None
                      | d # s5 \<Rightarrow>
                          if d = CHR ''}'' then Some (''{'' @ a @ ''...'' @ b @ ''}'', s5)
                          else None)))"

text \<open>
  The whole expression matched from the start of \<open>s\<close>, giving the three groups. The
  first group is greedy: it first takes one more character and tries the rest, and
  only if that fails does it stop, where the second group must match and the third
  takes what is left of the line.
\<close>

fun matchHere :: "string \<Rightarrow> (string \<times> string \<times> string) option" where
  "matchHere [] = None"
| "matchHere (c # cs) =
     (case (if isDot c then matchHere cs else None) of
        Some (g1, g2, g3) \<Rightarrow> Some (c # g1, g2, g3)
      | None \<Rightarrow>
          (case matchSpan (c # cs) of
             Some (g2, rest) \<Rightarrow> Some ([], g2, takeWhile isDot rest)
           | None \<Rightarrow> None))"

text \<open>
  \<^verbatim>\<open>regexpEllipses.FindStringSubmatch\<close>: the match at the leftmost position that has
  one, as the list of the whole match and the three groups; the empty list (nil) when
  there is none. \<^verbatim>\<open>regexpEllipses.MatchString\<close> tells whether there is a match.
\<close>

fun FindStringSubmatch :: "string \<Rightarrow> string list" where
  "FindStringSubmatch [] = []"
| "FindStringSubmatch (c # cs) =
     (case matchHere (c # cs) of
        Some (g1, g2, g3) \<Rightarrow> [g1 @ g2 @ g3, g1, g2, g3]
      | None \<Rightarrow> FindStringSubmatch cs)"

definition MatchString :: "string \<Rightarrow> bool" where
  "MatchString s = (FindStringSubmatch s \<noteq> [])"

subsection \<open>Pattern and its expansion\<close>

record Pattern =
  Prefix :: string
  Suffix :: string
  Seq :: "string list"

type_synonym ArgPattern = "Pattern list"

text \<open>\<^verbatim>\<open>Pattern.Expand\<close>: each label of \<open>Seq\<close> between the prefix and the suffix.\<close>

definition Pattern_Expand :: "Pattern \<Rightarrow> string list" where
  "Pattern_Expand p =
     map (\<lambda>s. if Prefix p \<noteq> [] \<and> Suffix p = [] then Prefix p @ s
              else if Suffix p \<noteq> [] \<and> Prefix p = [] then s @ Suffix p
              else if Suffix p = [] \<and> Prefix p = [] then s
              else Prefix p @ s @ Suffix p) (Seq p)"

text \<open>
  \<^verbatim>\<open>argExpander\<close>. Reading \<^verbatim>\<open>labels[0]\<close> of an empty slice panics. The source calls
  itself once for every label of \<^verbatim>\<open>labels[0]\<close>, so each slice it appends to is fresh
  and appended to once: \<^verbatim>\<open>append(rlbls, lbl)\<close> is the list with \<open>lbl\<close> at its end.
\<close>

datatype panic = IndexOutOfRange

fun argExpander :: "string list list \<Rightarrow> panic + string list list" where
  "argExpander [] = Inl IndexOutOfRange"
| "argExpander [l] = Inr (map (\<lambda>v. [v]) l)"
| "argExpander (l # ls) =
     foldl (\<lambda>out lbl.
              case out of
                Inl e \<Rightarrow> Inl e
              | Inr out' \<Rightarrow>
                  (case argExpander ls of
                     Inl e \<Rightarrow> Inl e
                   | Inr rs \<Rightarrow> Inr (out' @ map (\<lambda>rlbls. rlbls @ [lbl]) rs)))
           (Inr []) l"

text \<open>\<^verbatim>\<open>ArgPattern.Expand\<close>.\<close>

definition ArgPattern_Expand :: "ArgPattern \<Rightarrow> panic + string list list" where
  "ArgPattern_Expand a = argExpander (map Pattern_Expand a)"

subsection \<open>findPatterns and FindEllipsesPatterns\<close>

text \<open>
  The loop \<^verbatim>\<open>for patternFound { ... }\<close> of \<^verbatim>\<open>findPatterns\<close>, with the regular expression
  fixed to \<^verbatim>\<open>regexpEllipses\<close>, the one its only caller passes. It ends either in the
  \<^verbatim>\<open>return patterns, err\<close> of line 196 (left) or below the loop, with the current
  \<open>parts\<close> and \<open>patterns\<close> (right). \<open>parts\<close> is the list of the three groups of
  the last match, so \<open>parts ! 0\<close>, \<open>parts ! 1\<close> and \<open>parts ! 2\<close> are in range.
\<close>

function findLoop ::
  "(string \<Rightarrow> (error + string list) option) \<Rightarrow> string list \<Rightarrow> bool \<Rightarrow> Pattern list
     \<Rightarrow> ((Pattern list \<times> error) + (string list \<times> Pattern list)) option" where
  "findLoop patternParser parts patternFound patterns =
     (if patternFound
      then
        (case patternParser (parts ! 1) of
           None \<Rightarrow> None
         | Some (Inl err) \<Rightarrow> Some (Inl (patterns, err))
         | Some (Inr seq) \<Rightarrow>
             (let patterns1 = patterns @ [\<lparr>Prefix = [], Suffix = parts ! 2, Seq = seq\<rparr>];
                  parts1 = FindStringSubmatch (parts ! 0)
              in if length parts1 > 0
                 then findLoop patternParser (tl parts1) (MatchString (tl parts1 ! 0)) patterns1
                 else Some (Inr (parts1, patterns1))))
      else Some (Inr (parts, patterns)))"
  by pat_completeness auto
termination
proof (relation "measure (\<lambda>(patternParser, parts, patternFound, patterns). length (parts ! 0))",
    goal_cases)
  case 1
  show ?case by simp
next
  case (2 patternParser parts patternFound patterns r seq patterns1 parts1)
  have here: "matchHere s = Some (g1, g2, g3) \<Longrightarrow> length g1 < length s" for s g1 g2 g3
    by (induction s arbitrary: g1) (auto split: option.splits if_splits)
  have "FindStringSubmatch s \<noteq> [] \<Longrightarrow> length (tl (FindStringSubmatch s) ! 0) < length s" for s
  proof (induction s)
    case Nil
    then show ?case by simp
  next
    case (Cons c cs)
    then show ?case
      by (cases "matchHere (c # cs)") (auto dest: here simp del: matchHere.simps)
  qed
  from this [of "parts ! 0"] 2 show ?case by simp
qed

declare findLoop.simps [simp del]

text \<open>The check of lines 228 to 235 for braces left in a prefix or a suffix.\<close>

definition hasBraces :: "Pattern \<Rightarrow> bool" where
  "hasBraces pattern =
     (Count (Prefix pattern) openBraces > 0 \<or> Count (Prefix pattern) closeBraces > 0
      \<or> Count (Suffix pattern) openBraces > 0 \<or> Count (Suffix pattern) closeBraces > 0)"

definition ErrInvalidEllipsesFormatFn :: "string \<Rightarrow> error" where
  "ErrInvalidEllipsesFormatFn arg = InvalidEllipsesFormat arg"

text \<open>
  \<^verbatim>\<open>findPatterns\<close> returns a pattern list and an error, both, as the source does;
  \<^term>\<open>None\<close> when the parser does not return.
\<close>

definition findPatterns ::
  "string \<Rightarrow> (string \<Rightarrow> (error + string list) option) \<Rightarrow> (ArgPattern \<times> error option) option" where
  "findPatterns arg patternParser =
     (let parts = FindStringSubmatch arg
      in if length parts = 0 then Some ([], Some errFormat)
         else
           (let parts1 = tl parts; patternFound = MatchString (parts1 ! 0)
            in case findLoop patternParser parts1 patternFound [] of
                 None \<Rightarrow> None
               | Some (Inl (patterns, err)) \<Rightarrow> Some (patterns, Some err)
               | Some (Inr (parts2, patterns)) \<Rightarrow>
                   (case (if length parts2 > 0
                          then
                            (case patternParser (parts2 ! 1) of
                               None \<Rightarrow> None
                             | Some (Inl err) \<Rightarrow> Some (Inl err)
                             | Some (Inr seq) \<Rightarrow>
                                 Some (Inr (patterns @
                                   [\<lparr>Prefix = parts2 ! 0, Suffix = parts2 ! 2, Seq = seq\<rparr>])))
                          else Some (Inr patterns)) of
                      None \<Rightarrow> None
                    | Some (Inl err) \<Rightarrow> Some (patterns, Some err)
                    | Some (Inr patterns2) \<Rightarrow>
                        if list_ex hasBraces patterns2
                        then Some ([], Some (ErrInvalidEllipsesFormatFn arg))
                        else Some (patterns2, None))))"

definition FindEllipsesPatterns :: "string \<Rightarrow> (ArgPattern \<times> error option) option" where
  "FindEllipsesPatterns arg =
     (case findPatterns arg parseEllipsesRange of
        None \<Rightarrow> None
      | Some (v, err) \<Rightarrow>
          if err = Some errFormat then Some (v, Some (ErrInvalidEllipsesFormatFn arg))
          else Some (v, err))"

subsection \<open>Vocabulary of the properties\<close>

text \<open>Two notions that the statements below use; neither is part of the package.\<close>

text \<open>A text that \<^verbatim>\<open>ParseUint\<close> accepts holds digits and letters only.\<close>

definition isAlnum :: "char \<Rightarrow> bool" where
  "isAlnum c = (48 \<le> byte c \<and> byte c \<le> 57 \<or> 97 \<le> lower (byte c) \<and> lower (byte c) \<le> 122)"

text \<open>
  The text that a pattern list spells, given the token of each pattern: the patterns
  read from the last to the first, each as prefix, token, suffix.
\<close>

definition spelled :: "Pattern list \<Rightarrow> string list \<Rightarrow> string" where
  "spelled ps toks = concat (map (\<lambda>(p, t). Prefix p @ t @ Suffix p) (rev (zip ps toks)))"

section \<open>Lemmas\<close>

subsection \<open>The label loop\<close>

lemma seqLoop_Some_not_max:
  assumes "seqLoop r0 r1 h i e seq = Some y"
  shows "e \<noteq> - 1"
proof (rule seqLoop.raw_induct [where P = "\<lambda>r0 r1 h i e seq y. e \<noteq> - 1", rotated, OF assms],
    goal_cases)
  case (1 f r0 r1 h i e seq y)
  show ?case
  proof (cases "i \<le> e")
    case True
    with 1(2) have "f r0 r1 h (i + 1) e (seq @ [label r0 r1 h i]) = Some y" by simp
    then show ?thesis by (rule 1(1))
  next
    case False
    then show ?thesis by auto
  qed
qed

lemma seqLoop_max: "seqLoop r0 r1 h i (- 1) seq = None"
  using seqLoop_Some_not_max [of r0 r1 h i "- 1" seq]
  by (cases "seqLoop r0 r1 h i (- 1) seq") auto

lemma unat_succ_below: "(e::64 word) \<noteq> - 1 \<Longrightarrow> i \<le> e \<Longrightarrow> unat (i + 1) = Suc (unat i)"
  by (metis (no_types, lifting) add.commute add.right_neutral
    minus_add_cancel nle_le unatSuc word_order.extremum)

lemma seqLoop_closed:
  "e \<noteq> - 1 \<Longrightarrow> unat i \<le> Suc (unat e) \<Longrightarrow>
   seqLoop r0 r1 h i e seq =
     Some (seq @ map (\<lambda>k. label r0 r1 h (of_nat k)) [unat i ..< Suc (unat e)])"
proof (induction "Suc (unat e) - unat i" arbitrary: i seq)
  case 0
  then have eq: "unat i = Suc (unat e)" by simp
  then have "\<not> i \<le> e" by (simp add: word_le_nat_alt)
  with eq show ?case by (subst seqLoop.simps) simp
next
  case (Suc n)
  then have le: "i \<le> e" by (simp add: word_le_nat_alt)
  have un: "unat (i + 1) = Suc (unat i)"
    using Suc.prems(1) le by (rule unat_succ_below)
  have "seqLoop r0 r1 h i e seq = seqLoop r0 r1 h (i + 1) e (seq @ [label r0 r1 h i])"
    using le by (subst seqLoop.simps) simp
  also have "\<dots> = Some ((seq @ [label r0 r1 h i]) @
      map (\<lambda>k. label r0 r1 h (of_nat k)) [unat (i + 1) ..< Suc (unat e)])"
    using Suc un le by (intro Suc.hyps(1)) (auto simp: word_le_nat_alt)
  also have "\<dots> = Some (seq @ map (\<lambda>k. label r0 r1 h (of_nat k)) [unat i ..< Suc (unat e)])"
  proof -
    have "unat i < Suc (unat e)" using le by (simp add: word_le_nat_alt)
    then have "[unat i ..< Suc (unat e)] = unat i # [unat (i + 1) ..< Suc (unat e)]"
      unfolding un by (rule upt_conv_Cons)
    then show ?thesis by simp
  qed
  finally show ?case .
qed

text \<open>
  The width that \<^verbatim>\<open>parsenum\<close> reads back from the digits of \<open>w\<close>: \<open>w\<close> itself
  below 10000010, and none from there on. The number read before the last digit is
  \<open>w div 10\<close>, the largest that \<^verbatim>\<open>tooLarge\<close> is asked about.
\<close>

lemma digitChar_value:
  assumes "d < 10"
  shows "48 \<le> byte (digitChar d) \<and> byte (digitChar d) \<le> 57 \<and> byte (digitChar d) - 48 = d"
proof -
  from assms have "d \<in> {0, 1, 2, 3, 4, 5, 6, 7, 8, 9}" by auto
  then show ?thesis by (auto simp: digitChar_def byte_def)
qed

lemma parsenum_digit:
  "d < 10 \<Longrightarrow> parsenum num (digitChar d # cs) =
     (if num > 1000000 then None else parsenum (num * 10 + int d) cs)"
  using digitChar_value [of d] by simp

lemma parsenum_formatBits:
  "parsenum 0 (formatBits 10 w @ rest) =
     (if 1000000 < w div 10 then None else parsenum (int w) rest)"
proof (induction w arbitrary: rest rule: less_induct)
  case (less w)
  show ?case
  proof (cases "w < 10")
    case True
    then have "formatBits 10 w = [digitChar w]" by (simp add: formatBits.simps)
    with True show ?thesis by (simp add: parsenum_digit del: parsenum.simps)
  next
    case False
    then have f: "formatBits 10 w = formatBits 10 (w div 10) @ [digitChar (w mod 10)]"
      by (subst formatBits.simps) simp
    from False have "w div 10 < w" by simp
    from less [OF this, of "digitChar (w mod 10) # rest"]
    have "parsenum 0 (formatBits 10 w @ rest) =
        (if 1000000 < w div 10 div 10 then None
         else parsenum (int (w div 10)) (digitChar (w mod 10) # rest))"
      by (simp add: f)
    also have "\<dots> = (if 1000000 < w div 10 then None else parsenum (int w) rest)"
    proof -
      have "int (w div 10) * 10 + int (w mod 10) = int w"
        by (metis mult.commute of_nat_add of_nat_mult of_nat_numeral div_mult_mod_eq mult_div_mod_eq)
      moreover have "1000000 < w div 10 div 10 \<Longrightarrow> 1000000 < w div 10" by linarith
      ultimately show ?thesis using False by (simp add: parsenum_digit del: parsenum.simps)
    qed
    finally show ?thesis .
  qed
qed

lemma parsenum_verb: "parsenum num ''d'' = Some num" "parsenum num ''x'' = Some num"
  by (simp_all add: byte_def)

lemma parsenum_width:
  "parsenum 0 (formatBits 10 w @ ''d'') = (if w < 10000010 then Some (int w) else None)"
  "parsenum 0 (formatBits 10 w @ ''x'') = (if w < 10000010 then Some (int w) else None)"
proof -
  have "1000000 < w div 10 \<longleftrightarrow> \<not> w < 10000010" by linarith
  then show "parsenum 0 (formatBits 10 w @ ''d'') = (if w < 10000010 then Some (int w) else None)"
    "parsenum 0 (formatBits 10 w @ ''x'') = (if w < 10000010 then Some (int w) else None)"
    by (simp_all add: parsenum_formatBits parsenum_verb del: parsenum.simps)
qed

text \<open>
  The label of a number up to the end, in closed form: the digits in the base of the
  range, padded to the length of the right boundary text under the condition of line
  84, as long as \<^verbatim>\<open>fmt\<close> reads that length as a width.
\<close>

lemma label_closed:
  assumes "k \<le> unat (e :: 64 word)"
  shows "label l r h (of_nat k) =
    (if HasPrefix l ''0'' \<and> 1 < length l \<or> HasPrefix r ''0''
     then (if length r < 10000010 then zeroPad (length r) (formatBits (if h then 16 else 10) k)
           else ''%!(NOVERB)%!(EXTRA uint64='' @ formatBits 10 k @ '')'')
     else formatBits (if h then 16 else 10) k)"
proof -
  note assms
  also have "unat e < 2 ^ 64" using unsigned_less [of e] by simp
  finally have "unat (of_nat k :: 64 word) = k" by (intro of_nat_inverse [OF refl]) simp
  then show ?thesis
    by (simp add: label_def Sprintf_d_def Sprintf_x_def Sprintf_0d_def Sprintf_0x_def
        noVerbExtra_def parsenum_width)
qed

lemma labels_closed:
  assumes "length r < 10000010"
  shows "map (\<lambda>k. label l r h (of_nat k)) [a ..< Suc (unat (e :: 64 word))] =
   map (\<lambda>k. if HasPrefix l ''0'' \<and> 1 < length l \<or> HasPrefix r ''0''
             then zeroPad (length r) (formatBits (if h then 16 else 10) k)
             else formatBits (if h then 16 else 10) k) [a ..< Suc (unat e)]"
proof (rule map_cong [OF refl])
  fix k assume "k \<in> set [a ..< Suc (unat e)]"
  then have "k \<le> unat e" by auto
  from label_closed [OF this, of l r h] assms
  show "label l r h (of_nat k) =
    (if HasPrefix l ''0'' \<and> 1 < length l \<or> HasPrefix r ''0''
     then zeroPad (length r) (formatBits (if h then 16 else 10) k)
     else formatBits (if h then 16 else 10) k)"
    by simp
qed

subsection \<open>The string functions\<close>

lemma HasPrefix_Nil [simp]: "HasPrefix s [] = True"
  by (simp add: HasPrefix_def)

lemma HasPrefix_Nil_left [simp]: "HasPrefix [] (d # ds) = False"
  by (simp add: HasPrefix_def)

lemma HasPrefix_Cons [simp]: "HasPrefix (c # cs) (d # ds) = (c = d \<and> HasPrefix cs ds)"
  by (auto simp: HasPrefix_def)

lemma HasPrefix_append: "HasPrefix s p \<Longrightarrow> s = p @ drop (length p) s"
  by (metis HasPrefix_def append_take_drop_id)

lemma splitFrom_nonempty [simp]: "splitFrom acc s sep \<noteq> []"
  by (induction acc s sep rule: splitFrom.induct) auto

lemma Contains_single: "Contains s [d] = (d \<in> set s)"
  by (induction s) auto

lemma TrimPrefix_Cons: "TrimPrefix (c # s) [c] = s"
  by (simp add: TrimPrefix_def HasPrefix_def)

lemma TrimSuffix_snoc: "TrimSuffix (s @ [c]) [c] = s"
  by (simp add: TrimSuffix_def HasSuffix_def)

lemma TrimPrefix_cases: "TrimPrefix s [c] = t \<Longrightarrow> s = c # t \<or> s = t"
  by (cases s) (auto simp: TrimPrefix_def split: if_splits)

lemma TrimSuffix_cases: "TrimSuffix s [c] = t \<Longrightarrow> s = t @ [c] \<or> s = t"
proof (cases "HasSuffix s [c]")
  case True
  assume t: "TrimSuffix s [c] = t"
  from True have "drop (length s - 1) s = [c]" "1 \<le> length s" by (simp_all add: HasSuffix_def)
  moreover from t True have "t = take (length s - 1) s" by (simp add: TrimSuffix_def)
  ultimately have "s = t @ [c]" by (metis append_take_drop_id)
  then show ?thesis by simp
next
  case False
  assume "TrimSuffix s [c] = t"
  with False show ?thesis by (simp add: TrimSuffix_def)
qed

lemma HasPrefix_split:
  assumes "sep \<noteq> []" "HasPrefix (c # cs) sep"
  shows "c # cs = sep @ drop (length sep - 1) cs"
proof -
  from assms obtain n where n: "length sep = Suc n" by (cases sep) auto
  from assms(2) have "take (Suc n) (c # cs) = sep" by (simp add: HasPrefix_def n)
  then have "c # cs = sep @ drop (Suc n) (c # cs)" by (metis append_take_drop_id)
  then show ?thesis by (simp add: n)
qed

text \<open>\<^verbatim>\<open>Split\<close> returns one piece more than \<^verbatim>\<open>Count\<close> finds separators.\<close>

lemma length_splitFrom: "sep \<noteq> [] \<Longrightarrow> length (splitFrom acc s sep) = Suc (Count s sep)"
  by (induction acc s sep rule: splitFrom.induct) auto

lemma length_Split: "sep \<noteq> [] \<Longrightarrow> length (Split s sep) = Suc (Count s sep)"
  by (simp add: Split_def length_splitFrom)

lemma splitFrom_one: "splitFrom acc s sep = [r] \<Longrightarrow> r = rev acc @ s"
  by (induction acc s sep arbitrary: r rule: splitFrom.induct) (auto split: if_splits)

lemma splitFrom_two: "splitFrom acc s sep = [l, r] \<Longrightarrow> rev acc @ s = l @ sep @ r"
proof (induction acc s sep arbitrary: l r rule: splitFrom.induct)
  case (1 acc sep)
  then show ?case by simp
next
  case (2 acc c cs sep)
  show ?case
  proof (cases "sep \<noteq> [] \<and> HasPrefix (c # cs) sep")
    case True
    with 2(3) have l: "l = rev acc" and r: "splitFrom [] (drop (length sep - 1) cs) sep = [r]"
      by auto
    from splitFrom_one [OF r] have "r = drop (length sep - 1) cs" by simp
    with HasPrefix_split [of sep c cs] True l show ?thesis by simp
  next
    case False
    with 2(3) have "splitFrom (c # acc) cs sep = [l, r]" by auto
    with 2(2) False show ?thesis by auto
  qed
qed

lemma Split_two: "Split s sep = [l, r] \<Longrightarrow> s = l @ sep @ r"
  using splitFrom_two [of "[]" s sep l r] by (simp add: Split_def)

lemma splitFrom_no_dot:
  "CHR ''.'' \<notin> set r \<Longrightarrow> splitFrom acc r ''...'' = [rev acc @ r]"
  by (induction r arbitrary: acc) auto

lemma splitFrom_dots:
  "CHR ''.'' \<notin> set l \<Longrightarrow> CHR ''.'' \<notin> set r \<Longrightarrow>
   splitFrom acc (l @ ''...'' @ r) ''...'' = [rev acc @ l, r]"
proof (induction l arbitrary: acc)
  case Nil
  then show ?case using splitFrom_no_dot [of r "[]"] by simp
next
  case (Cons a l)
  then show ?case by auto
qed

lemma Split_dots:
  "CHR ''.'' \<notin> set l \<Longrightarrow> CHR ''.'' \<notin> set r \<Longrightarrow> Split (l @ ''...'' @ r) ''...'' = [l, r]"
  using splitFrom_dots [of l r "[]"] by (simp add: Split_def)

lemma Split_two_iff: "Count body ellipses = 1 \<longleftrightarrow> (\<exists>l r. Split body ellipses = [l, r])"
proof -
  have len: "length (Split body ellipses) = Suc (Count body ellipses)"
    by (rule length_Split) (simp add: ellipses_def)
  show ?thesis
  proof
    assume "Count body ellipses = 1"
    with len have "length (Split body ellipses) = 2" by simp
    then show "\<exists>l r. Split body ellipses = [l, r]"
      by (metis (no_types) One_nat_def Suc_1 length_0_conv length_Suc_conv)
  next
    assume "\<exists>l r. Split body ellipses = [l, r]"
    with len show "Count body ellipses = 1" by auto
  qed
qed

subsection \<open>Parsing a boundary\<close>

lemma parseDigits_chars: "parseDigits base n s = Inr v \<Longrightarrow> \<forall>c\<in>set s. isAlnum c"
  by (induction s arbitrary: n) (auto simp: isAlnum_def Let_def split: if_splits)

lemma not_alnum: "\<not> isAlnum (CHR ''.'')" "\<not> isAlnum (CHR ''{'')" "\<not> isAlnum (CHR ''}'')"
  by (simp_all add: isAlnum_def byte_def lower_def)

lemma ParseUint_chars: "ParseUint s base = Inr v \<Longrightarrow> s \<noteq> [] \<and> (\<forall>c\<in>set s. isAlnum c)"
  by (auto simp: ParseUint_def split: if_splits sum.splits dest: parseDigits_chars)

lemma parseBoundary_chars: "parseBoundary s = Inr x \<Longrightarrow> s \<noteq> [] \<and> (\<forall>c\<in>set s. isAlnum c)"
  by (auto simp: parseBoundary_def split: sum.splits dest: ParseUint_chars)

lemma parseBoundary_no_dot: "parseBoundary s = Inr x \<Longrightarrow> CHR ''.'' \<notin> set s"
  using parseBoundary_chars [of s x] not_alnum(1) by auto

lemma parseBoundary_Inl_iff: "isl (parseBoundary s) \<longleftrightarrow> isl (ParseUint s 10) \<and> isl (ParseUint s 16)"
  by (auto simp: parseBoundary_def split: sum.splits)

lemma parseBoundary_error: "parseBoundary s = Inl err \<Longrightarrow> \<exists>k. err = NumError s k"
  by (auto simp: parseBoundary_def ParseUint_def split: sum.splits if_splits)

subsection \<open>The steps of parseEllipsesRange\<close>

lemma braces_off:
  "Contains (''{'' @ body @ ''}'') openBraces"
  "Contains (''{'' @ body @ ''}'') closeBraces"
  "TrimSuffix (TrimPrefix (''{'' @ body @ ''}'') openBraces) closeBraces = body"
  by (simp_all add: openBraces_def closeBraces_def Contains_single TrimPrefix_Cons TrimSuffix_snoc)

lemma parseEllipsesRange_two:
  assumes "Split body ellipses = [l, r]"
  shows "parseEllipsesRange (''{'' @ body @ ''}'') =
     (case parseBoundary l of
        Inl err \<Rightarrow> Some (Inl err)
      | Inr (start, hex0) \<Rightarrow>
          (case parseBoundary r of
             Inl err \<Rightarrow> Some (Inl err)
           | Inr (end, hex1) \<Rightarrow>
               if start > end then Some (Inl (RangeOrderError start end))
               else map_option Inr (seqLoop l r (hex0 \<or> hex1) start end [])))"
  unfolding parseEllipsesRange_def
  by (simp only: braces_off Let_def assms) (simp split: sum.split prod.split)

lemma parseEllipsesRange_not_two:
  assumes "Count body ellipses \<noteq> 1"
  shows "parseEllipsesRange (''{'' @ body @ ''}'') = Some (Inl InvalidArgument)"
proof -
  have "length (Split body ellipses) = Suc (Count body ellipses)"
    by (rule length_Split) (simp add: ellipses_def)
  with assms have "length (Split body ellipses) \<noteq> 2" by simp
  then show ?thesis
    unfolding parseEllipsesRange_def by (simp only: braces_off Let_def) simp
qed

lemma parseEllipsesRange_general_two:
  assumes "Contains pattern openBraces" "Contains pattern closeBraces"
    "Split (TrimSuffix (TrimPrefix pattern openBraces) closeBraces) ellipses = [l, r]"
  shows "parseEllipsesRange pattern =
     (case parseBoundary l of
        Inl err \<Rightarrow> Some (Inl err)
      | Inr (start, hex0) \<Rightarrow>
          (case parseBoundary r of
             Inl err \<Rightarrow> Some (Inl err)
           | Inr (end, hex1) \<Rightarrow>
               if start > end then Some (Inl (RangeOrderError start end))
               else map_option Inr (seqLoop l r (hex0 \<or> hex1) start end [])))"
  unfolding parseEllipsesRange_def
  by (simp only: assms Let_def not_True_eq_False if_False) (simp split: sum.split prod.split)

text \<open>
  A pattern on which \<open>parseEllipsesRange\<close> returns no error is a token \<open>{l...r}\<close>
  with both boundaries read and start at most end; what is left is the label loop.
\<close>

lemma parseEllipsesRange_no_error_cases:
  assumes "\<And>err. parseEllipsesRange pattern \<noteq> Some (Inl err)"
  obtains l r s h0 e h1 where
    "CHR ''{'' \<in> set pattern" "CHR ''}'' \<in> set pattern"
    "Split (TrimSuffix (TrimPrefix pattern ''{'') ''}'') ellipses = [l, r]"
    "parseBoundary l = Inr (s, h0)" "parseBoundary r = Inr (e, h1)" "s \<le> e"
    "parseEllipsesRange pattern = map_option Inr (seqLoop l r (h0 \<or> h1) s e [])"
proof -
  let ?body = "TrimSuffix (TrimPrefix pattern openBraces) closeBraces"
  have c1: "Contains pattern openBraces"
  proof (rule ccontr)
    assume "\<not> Contains pattern openBraces"
    then have "parseEllipsesRange pattern = Some (Inl InvalidArgument)"
      unfolding parseEllipsesRange_def by simp
    with assms show False by blast
  qed
  have c2: "Contains pattern closeBraces"
  proof (rule ccontr)
    assume "\<not> Contains pattern closeBraces"
    then have "parseEllipsesRange pattern = Some (Inl InvalidArgument)"
      unfolding parseEllipsesRange_def by simp
    with assms show False by blast
  qed
  have len: "length (Split ?body ellipses) = 2"
  proof (rule ccontr)
    assume "length (Split ?body ellipses) \<noteq> 2"
    then have "parseEllipsesRange pattern = Some (Inl InvalidArgument)"
      unfolding parseEllipsesRange_def using c1 c2 by (simp add: Let_def)
    with assms show False by blast
  qed
  then obtain l r where lr: "Split ?body ellipses = [l, r]"
    by (metis (no_types) One_nat_def Suc_1 length_0_conv length_Suc_conv)
  note rest = parseEllipsesRange_general_two [OF c1 c2 lr]
  obtain s h0 where l: "parseBoundary l = Inr (s, h0)"
    using rest assms by (cases "parseBoundary l") auto
  obtain e h1 where r: "parseBoundary r = Inr (e, h1)"
    using rest l assms by (cases "parseBoundary r") auto
  from rest l r assms have le: "s \<le> e"
    by (cases "e < s") auto
  with rest l r
  have loop: "parseEllipsesRange pattern = map_option Inr (seqLoop l r (h0 \<or> h1) s e [])"
    by (simp add: not_less [symmetric])
  from c1 c2 have "CHR ''{'' \<in> set pattern" "CHR ''}'' \<in> set pattern"
    by (simp_all add: openBraces_def closeBraces_def Contains_single)
  moreover from lr have "Split (TrimSuffix (TrimPrefix pattern ''{'') ''}'') ellipses = [l, r]"
    by (simp add: openBraces_def closeBraces_def)
  ultimately show thesis using l r le loop that by blast
qed

lemma parseEllipsesRange_no_error_shape:
  assumes "\<And>err. parseEllipsesRange pattern \<noteq> Some (Inl err)"
  obtains l r s h0 e h1 where
    "pattern = ''{'' @ l @ ''...'' @ r @ ''}''"
    "parseBoundary l = Inr (s, h0)" "parseBoundary r = Inr (e, h1)" "s \<le> e"
    "parseEllipsesRange pattern = map_option Inr (seqLoop l r (h0 \<or> h1) s e [])"
proof -
  from assms obtain l r s h0 e h1 where
    o: "CHR ''{'' \<in> set pattern" and c: "CHR ''}'' \<in> set pattern" and
    lr: "Split (TrimSuffix (TrimPrefix pattern ''{'') ''}'') ellipses = [l, r]" and
    l: "parseBoundary l = Inr (s, h0)" and r: "parseBoundary r = Inr (e, h1)" and
    le: "s \<le> e" and
    loop: "parseEllipsesRange pattern = map_option Inr (seqLoop l r (h0 \<or> h1) s e [])"
    by (rule parseEllipsesRange_no_error_cases) blast
  define p1 where "p1 = TrimPrefix pattern ''{''"
  define p2 where "p2 = TrimSuffix p1 ''}''"
  from Split_two [OF lr] have p2: "p2 = l @ ''...'' @ r" by (simp add: ellipses_def p1_def p2_def)
  from l r have "\<forall>c\<in>set l. isAlnum c" "\<forall>c\<in>set r. isAlnum c"
    by (auto dest: parseBoundary_chars)
  with not_alnum have nb: "CHR ''{'' \<notin> set p2" "CHR ''}'' \<notin> set p2"
    unfolding p2 by auto
  have A: "pattern = CHR ''{'' # p1 \<or> pattern = p1" by (rule TrimPrefix_cases) (simp add: p1_def)
  have B: "p1 = p2 @ ''}'' \<or> p1 = p2" by (rule TrimSuffix_cases) (simp add: p2_def)
  from o A B nb have 1: "pattern = CHR ''{'' # p1" by auto
  with c B nb have 2: "p1 = p2 @ ''}''" by auto
  from 1 2 p2 have "pattern = ''{'' @ l @ ''...'' @ r @ ''}''" by simp
  then show thesis using l r le loop that by blast
qed

lemma parseEllipsesRange_token:
  assumes "parseBoundary l = Inr (s, h0)" "parseBoundary r = Inr (e, h1)"
  shows "parseEllipsesRange (''{'' @ l @ ''...'' @ r @ ''}'') =
     (if e < s then Some (Inl (RangeOrderError s e))
      else if e = - 1 then None
      else Some (Inr (map (\<lambda>k. label l r (h0 \<or> h1) (of_nat k)) [unat s ..< Suc (unat e)])))"
proof -
  have "Split (l @ ''...'' @ r) ellipses = [l, r]"
    unfolding ellipses_def using assms by (intro Split_dots parseBoundary_no_dot)
  note eq = parseEllipsesRange_two [OF this, unfolded assms, simplified]
  show ?thesis
  proof (cases "e < s")
    case True
    with eq show ?thesis by simp
  next
    case False
    show ?thesis
    proof (cases "e = - 1")
      case True
      with eq False show ?thesis by (simp add: seqLoop_max)
    next
      case ne: False
      from False have "unat s \<le> Suc (unat e)" by (simp add: word_less_nat_alt)
      from seqLoop_closed [OF ne this, of l r "h0 \<or> h1" "[]"]
      have "seqLoop l r (h0 \<or> h1) s e [] =
          Some (map (\<lambda>k. label l r (h0 \<or> h1) (of_nat k)) [unat s ..< Suc (unat e)])"
        by simp
      then show ?thesis using eq False ne by simp
    qed
  qed
qed

text \<open>
  The labels of a token in closed form, when the end is below the largest 64-bit
  value and the right boundary text is short enough to be read as a width.
\<close>

lemma parseEllipsesRange_labels:
  assumes "parseBoundary l = Inr (s, h0)" "parseBoundary r = Inr (e, h1)"
    "s \<le> e" "e \<noteq> - 1" "length r < 10000010"
  shows "parseEllipsesRange (''{'' @ l @ ''...'' @ r @ ''}'') =
     Some (Inr (map (\<lambda>k. if HasPrefix l ''0'' \<and> 1 < length l \<or> HasPrefix r ''0''
                          then zeroPad (length r) (formatBits (if h0 \<or> h1 then 16 else 10) k)
                          else formatBits (if h0 \<or> h1 then 16 else 10) k)
                  [unat s ..< Suc (unat e)]))"
proof -
  from assms(3) have "\<not> e < s" by (simp add: not_less)
  with parseEllipsesRange_token [OF assms(1,2)] assms(4)
  have "parseEllipsesRange (''{'' @ l @ ''...'' @ r @ ''}'') =
      Some (Inr (map (\<lambda>k. label l r (h0 \<or> h1) (of_nat k)) [unat s ..< Suc (unat e)]))"
    by simp
  then show ?thesis unfolding labels_closed [OF assms(5)] .
qed

text \<open>
  A token whose left boundary is read as hexadecimal and whose right boundary passes
  the decimal parse: the end is the decimal value of the right text.
\<close>

lemma mixed_bases_boundaries:
  assumes "isl (ParseUint l 10)" "ParseUint l 16 = Inr s" "ParseUint r 10 = Inr e"
  shows "parseBoundary l = Inr (s, True) \<and> parseBoundary r = Inr (e, False) \<and>
     parseEllipsesRange (''{'' @ l @ ''...'' @ r @ ''}'') =
       (if e < s then Some (Inl (RangeOrderError s e))
        else if e = - 1 then None
        else Some (Inr (map (\<lambda>k. label l r True (of_nat k)) [unat s ..< Suc (unat e)])))"
proof -
  from assms(1, 2) have l: "parseBoundary l = Inr (s, True)"
    by (cases "ParseUint l 10") (simp_all add: parseBoundary_def)
  from assms(3) have r: "parseBoundary r = Inr (e, False)"
    by (simp add: parseBoundary_def)
  from parseEllipsesRange_token [OF l r] l r show ?thesis by simp
qed

text \<open>
  A right boundary written with many zeros before a 1: its value is 1, and from
  10000010 characters on the label is what \<^verbatim>\<open>fmt\<close> writes for a width it does not read.
\<close>

lemma parseDigits_zeros:
  "parseDigits 10 0 (replicate n (CHR ''0'') @ s) = parseDigits 10 0 s"
proof (induction n)
  case 0
  show ?case by simp
next
  case (Suc n)
  have "\<not> (- 1 :: 64 word) div 10 + 1 \<le> 0" by code_simp
  with Suc show ?case by (simp add: byte_def)
qed

lemma parseBoundary_zeros_one:
  "parseBoundary (replicate n (CHR ''0'') @ ''1'') = Inr (1, False)"
proof -
  have "parseDigits 10 0 ''1'' = Inr 1" by code_simp
  then have "parseDigits 10 0 (replicate n (CHR ''0'') @ ''1'') = Inr 1"
    by (simp only: parseDigits_zeros)
  then show ?thesis by (simp add: parseBoundary_def ParseUint_def)
qed

lemma parseEllipsesRange_long_width:
  assumes "10000009 \<le> n"
  shows "parseEllipsesRange (''{1...'' @ replicate n (CHR ''0'') @ ''1}'') =
     Some (Inr [''%!(NOVERB)%!(EXTRA uint64=1)''])"
proof -
  let ?r = "replicate n (CHR ''0'') @ ''1''"
  have one: "parseBoundary ''1'' = Inr (1, False)" by code_simp
  from assms obtain m where n: "n = Suc m" by (cases n) auto
  then have pre: "HasPrefix ?r ''0''" by simp
  have len: "\<not> length ?r < 10000010" using assms by simp
  have digits: "formatBits 10 (Suc 0) = ''1''" by code_simp
  have "label ''1'' ?r False (of_nat 1) = ''%!(NOVERB)%!(EXTRA uint64=1)''"
    using assms by (subst label_closed [where e = 1]) (simp_all add: pre digits)
  moreover have "[unat (1 :: 64 word) ..< Suc (unat (1 :: 64 word))] = [1]" by simp
  moreover have "(1 :: 64 word) \<noteq> - 1" by simp
  ultimately have "parseEllipsesRange (''{'' @ ''1'' @ ''...'' @ ?r @ ''}'') =
     Some (Inr [''%!(NOVERB)%!(EXTRA uint64=1)''])"
    using parseEllipsesRange_token [OF one parseBoundary_zeros_one [of n]] by simp
  then show ?thesis by simp
qed

text \<open>
  The calls that never return: exactly those on a token whose boundaries both parse
  and whose end is the largest 64-bit value.
\<close>

lemma parseEllipsesRange_None_iff:
  "parseEllipsesRange pattern = None \<longleftrightarrow>
     (\<exists>l r s h0 h1. pattern = ''{'' @ l @ ''...'' @ r @ ''}'' \<and>
        parseBoundary l = Inr (s, h0) \<and> parseBoundary r = Inr (- 1, h1))"
proof
  assume a: "parseEllipsesRange pattern = None"
  then have "\<And>err. parseEllipsesRange pattern \<noteq> Some (Inl err)" by simp
  then obtain l r s h0 e h1 where
    p: "pattern = ''{'' @ l @ ''...'' @ r @ ''}''" and
    l: "parseBoundary l = Inr (s, h0)" and r: "parseBoundary r = Inr (e, h1)" and
    le: "s \<le> e"
    by (rule parseEllipsesRange_no_error_shape)
  from parseEllipsesRange_token [OF l r] a p le have "e = - 1"
    by (auto simp: not_less [symmetric] split: if_splits)
  with p l r show "\<exists>l r s h0 h1. pattern = ''{'' @ l @ ''...'' @ r @ ''}'' \<and>
        parseBoundary l = Inr (s, h0) \<and> parseBoundary r = Inr (- 1, h1)" by blast
next
  assume "\<exists>l r s h0 h1. pattern = ''{'' @ l @ ''...'' @ r @ ''}'' \<and>
        parseBoundary l = Inr (s, h0) \<and> parseBoundary r = Inr (- 1, h1)"
  then obtain l r s h0 h1 where p: "pattern = ''{'' @ l @ ''...'' @ r @ ''}''" and
    l: "parseBoundary l = Inr (s, h0)" and r: "parseBoundary r = Inr (- 1, h1)" by blast
  have "\<not> (- 1 :: 64 word) < s" by (simp add: not_less)
  with parseEllipsesRange_token [OF l r] p show "parseEllipsesRange pattern = None" by simp
qed

text \<open>The errors of \<open>parseEllipsesRange\<close> are never the format errors.\<close>

lemma parseEllipsesRange_error_kinds:
  assumes "parseEllipsesRange pattern = Some (Inl err)"
  shows "err = InvalidArgument \<or> (\<exists>t k. err = NumError t k) \<or> (\<exists>a b. err = RangeOrderError a b)"
proof (rule ccontr)
  assume n: "\<not> ?thesis"
  let ?body = "TrimSuffix (TrimPrefix pattern openBraces) closeBraces"
  have c1: "Contains pattern openBraces"
  proof (rule ccontr)
    assume "\<not> Contains pattern openBraces"
    then have "parseEllipsesRange pattern = Some (Inl InvalidArgument)"
      unfolding parseEllipsesRange_def by simp
    with assms n show False by simp
  qed
  have c2: "Contains pattern closeBraces"
  proof (rule ccontr)
    assume "\<not> Contains pattern closeBraces"
    then have "parseEllipsesRange pattern = Some (Inl InvalidArgument)"
      unfolding parseEllipsesRange_def by simp
    with assms n show False by simp
  qed
  have len: "length (Split ?body ellipses) = 2"
  proof (rule ccontr)
    assume "length (Split ?body ellipses) \<noteq> 2"
    then have "parseEllipsesRange pattern = Some (Inl InvalidArgument)"
      unfolding parseEllipsesRange_def using c1 c2 by (simp add: Let_def)
    with assms n show False by simp
  qed
  then obtain l r where lr: "Split ?body ellipses = [l, r]"
    by (metis (no_types) One_nat_def Suc_1 length_0_conv length_Suc_conv)
  note rest = parseEllipsesRange_general_two [OF c1 c2 lr, unfolded assms]
  show False
  proof (cases "parseBoundary l")
    case (Inl e)
    with rest n parseBoundary_error [OF Inl] show ?thesis by auto
  next
    case l: (Inr x)
    show ?thesis
    proof (cases "parseBoundary r")
      case (Inl e)
      with rest l n parseBoundary_error [OF Inl] show ?thesis by (cases x) auto
    next
      case r: (Inr y)
      with rest l n show ?thesis
        by (cases x; cases y) (auto split: if_splits simp: map_option_case split: option.splits)
    qed
  qed
qed

subsection \<open>The matches of regexpEllipses\<close>

lemma matchSpan_append:
  assumes "matchSpan s = Some (g2, rest)"
  shows "s = g2 @ rest"
proof -
  from assms obtain s1 where s: "s = CHR ''{'' # s1"
    by (cases s) (auto simp: matchSpan_def split: if_splits)
  define a where "a = takeWhile isRangeChar s1"
  define s2 where "s2 = dropWhile isRangeChar s1"
  define s3 where "s3 = drop 3 s2"
  define b where "b = takeWhile isRangeChar s3"
  define s4 where "s4 = dropWhile isRangeChar s3"
  have eq: "matchSpan s =
     (if \<not> HasPrefix s2 ''...'' then None
      else case s4 of
             [] \<Rightarrow> None
           | d # s5 \<Rightarrow> if d = CHR ''}'' then Some (''{'' @ a @ ''...'' @ b @ ''}'', s5) else None)"
    unfolding matchSpan_def s a_def s2_def s3_def b_def s4_def by (simp add: Let_def)
  from assms eq have p: "HasPrefix s2 ''...''" by (auto split: if_splits)
  with assms eq obtain s5 where s4: "s4 = CHR ''}'' # s5" and
    g2: "g2 = ''{'' @ a @ ''...'' @ b @ ''}''" and rest: "rest = s5"
    by (cases s4) (auto split: if_splits)
  have "s1 = a @ s2" by (simp add: a_def s2_def)
  moreover from HasPrefix_append [OF p] have "s2 = ''...'' @ s3"
    by (simp add: s3_def numeral_3_eq_3)
  moreover have "s3 = b @ s4" by (simp add: b_def s4_def)
  ultimately show ?thesis using s s4 g2 rest by simp
qed

lemma matchHere_append:
  "matchHere s = Some (g1, g2, g3) \<Longrightarrow>
   \<exists>after. s = g1 @ g2 @ g3 @ after \<and> CHR 0x0A \<notin> set g1 \<and> (CHR 0x0A \<notin> set s \<longrightarrow> after = [])"
proof (induction s arbitrary: g1)
  case Nil
  then show ?case by simp
next
  case (Cons c cs)
  show ?case
  proof (cases "if isDot c then matchHere cs else None")
    case None
    with Cons.prems obtain rest where sp: "matchSpan (c # cs) = Some (g2, rest)" and
      g: "g1 = []" "g3 = takeWhile isDot rest"
      by (auto split: option.splits)
    from matchSpan_append [OF sp] have s: "c # cs = g2 @ rest" .
    have "rest = g3 @ dropWhile isDot rest" by (simp add: g)
    moreover have "CHR 0x0A \<notin> set (c # cs) \<longrightarrow> dropWhile isDot rest = []"
      unfolding s by (auto simp: isDot_def)
    ultimately show ?thesis using s g by (metis append_Nil empty_iff empty_set)
  next
    case (Some x)
    then obtain h1 where h: "isDot c" "matchHere cs = Some (h1, g2, g3)" "g1 = c # h1"
      using Cons.prems by (cases x) (auto split: if_splits)
    from Cons.IH [OF h(2)] h(1, 3) show ?thesis by (auto simp: isDot_def)
  qed
qed

lemma matchHere_None_tail: "matchHere (c # cs) = None \<Longrightarrow> isDot c \<Longrightarrow> matchHere cs = None"
  by (cases "matchHere cs") auto

lemma FindStringSubmatch_cases:
  "FindStringSubmatch s = [] \<or>
   (\<exists>g1 g2 g3 before after. FindStringSubmatch s = [g1 @ g2 @ g3, g1, g2, g3] \<and>
      s = before @ g1 @ g2 @ g3 @ after \<and> CHR 0x0A \<notin> set g1 \<and>
      (CHR 0x0A \<notin> set s \<longrightarrow> before = [] \<and> after = []))"
proof (induction s)
  case Nil
  then show ?case by simp
next
  case (Cons c cs)
  show ?case
  proof (cases "matchHere (c # cs)")
    case None
    then have eq: "FindStringSubmatch (c # cs) = FindStringSubmatch cs" by simp
    have "CHR 0x0A \<notin> set (c # cs) \<Longrightarrow> FindStringSubmatch cs = []"
    proof -
      assume nl: "CHR 0x0A \<notin> set (c # cs)"
      have "matchHere t = None \<Longrightarrow> CHR 0x0A \<notin> set t \<Longrightarrow> FindStringSubmatch t = []" for t
      proof (induction t)
        case Nil
        then show ?case by simp
      next
        case (Cons d t)
        from Cons.prems have "matchHere t = None"
          by (intro matchHere_None_tail [of d t]) (auto simp: isDot_def)
        with Cons show ?case by simp
      qed
      from this [of cs] None nl show ?thesis
        using matchHere_None_tail [of c cs] by (auto simp: isDot_def)
    qed
    with Cons.IH eq show ?thesis
      by (metis append_Cons)
  next
    case (Some x)
    obtain g1 g2 g3 where x: "x = (g1, g2, g3)" by (cases x)
    from Some x have "FindStringSubmatch (c # cs) = [g1 @ g2 @ g3, g1, g2, g3]" by simp
    with matchHere_append [OF Some [unfolded x]] show ?thesis
      by (metis append_Nil)
  qed
qed

lemma FindStringSubmatch_line:
  assumes "FindStringSubmatch s \<noteq> []" "CHR 0x0A \<notin> set s"
  obtains g1 g2 g3 where "FindStringSubmatch s = [s, g1, g2, g3]" "s = g1 @ g2 @ g3"
    "CHR 0x0A \<notin> set g1"
  using FindStringSubmatch_cases [of s] assms by auto

subsection \<open>Which match the regular expression finds\<close>

text \<open>
  The lemmas above say that a match is a piece of the input. The ones below say which
  piece: they read \<open>matchSpan\<close>, \<open>matchHere\<close> and \<open>FindStringSubmatch\<close> in both
  directions, from a match to the shape of the input and from the shape of an input
  to its match.
\<close>

declare matchHere.simps(2) [simp del]

lemma isRangeChar_not:
  "\<not> isRangeChar (CHR ''.'')" "\<not> isRangeChar (CHR ''}'')" "\<not> isRangeChar (CHR ''{'')"
  "\<not> isRangeChar (CHR 0x0A)"
  by (simp_all add: isRangeChar_def byte_def)

lemma takeWhile_run:
  "\<forall>c\<in>set a. P c \<Longrightarrow> \<not> P d \<Longrightarrow> takeWhile P (a @ d # s) = a \<and> dropWhile P (a @ d # s) = d # s"
  by (induction a) auto

text \<open>The texts that the second group matches, and what it leaves.\<close>

lemma matchSpan_built:
  assumes "\<forall>c\<in>set a. isRangeChar c" "\<forall>c\<in>set b. isRangeChar c"
  shows "matchSpan (''{'' @ a @ ''...'' @ b @ ''}'' @ rest) = Some (''{'' @ a @ ''...'' @ b @ ''}'', rest)"
  unfolding matchSpan_def
  by (simp add: Let_def takeWhile_run [OF assms(1) isRangeChar_not(1)]
      takeWhile_run [OF assms(2) isRangeChar_not(2)])

lemma matchSpan_shape:
  assumes "matchSpan s = Some (g2, rest)"
  shows "\<exists>a b. g2 = ''{'' @ a @ ''...'' @ b @ ''}'' \<and>
    (\<forall>c\<in>set a. isRangeChar c) \<and> (\<forall>c\<in>set b. isRangeChar c) \<and> s = g2 @ rest"
proof -
  from assms obtain s1 where s: "s = CHR ''{'' # s1"
    by (cases s) (auto simp: matchSpan_def split: if_splits)
  define a where "a = takeWhile isRangeChar s1"
  define s2 where "s2 = dropWhile isRangeChar s1"
  define s3 where "s3 = drop 3 s2"
  define b where "b = takeWhile isRangeChar s3"
  define s4 where "s4 = dropWhile isRangeChar s3"
  have eq: "matchSpan s =
     (if \<not> HasPrefix s2 ''...'' then None
      else case s4 of
             [] \<Rightarrow> None
           | d # s5 \<Rightarrow> if d = CHR ''}'' then Some (''{'' @ a @ ''...'' @ b @ ''}'', s5) else None)"
    unfolding matchSpan_def s a_def s2_def s3_def b_def s4_def by (simp add: Let_def)
  from assms eq have p: "HasPrefix s2 ''...''" by (auto split: if_splits)
  with assms eq obtain s5 where s4: "s4 = CHR ''}'' # s5" and
    g2: "g2 = ''{'' @ a @ ''...'' @ b @ ''}''" and rest: "rest = s5"
    by (cases s4) (auto split: if_splits)
  have "\<forall>c\<in>set a. isRangeChar c" "\<forall>c\<in>set b. isRangeChar c"
    unfolding a_def b_def by (auto dest: set_takeWhileD)
  moreover from matchSpan_append [OF assms] have "s = g2 @ rest" .
  ultimately show ?thesis using g2 by blast
qed

lemma matchSpan_extend:
  assumes "matchSpan s = Some (g2, rest)"
  shows "matchSpan (g2 @ z) = Some (g2, z)"
proof -
  from matchSpan_shape [OF assms] obtain a b where
    "g2 = ''{'' @ a @ ''...'' @ b @ ''}''" "\<forall>c\<in>set a. isRangeChar c" "\<forall>c\<in>set b. isRangeChar c"
    by blast
  with matchSpan_built [of a b z] show ?thesis by simp
qed

lemma matchSpan_first: "matchSpan (c # cs) = Some x \<Longrightarrow> c = CHR ''{''"
  by (auto simp: matchSpan_def split: if_splits)

lemma matchSpan_chars:
  assumes "matchSpan s = Some (g2, rest)"
  shows "\<exists>t. g2 = CHR ''{'' # t \<and> CHR ''{'' \<notin> set t \<and> CHR 0x0A \<notin> set g2"
proof -
  from matchSpan_shape [OF assms] obtain a b where
    g: "g2 = ''{'' @ a @ ''...'' @ b @ ''}''" and
    a: "\<forall>c\<in>set a. isRangeChar c" and b: "\<forall>c\<in>set b. isRangeChar c"
    by blast
  from a b isRangeChar_not(3,4) have "CHR ''{'' \<notin> set (a @ ''...'' @ b @ ''}'')"
    "CHR 0x0A \<notin> set (a @ ''...'' @ b @ ''}'')" by auto
  with g show ?thesis by simp
qed


lemma matchSpan_Nil [simp]: "matchSpan [] = None"
  by (simp add: matchSpan_def)

lemma matchSpan_restrict:
  assumes "matchSpan (y @ after) = Some (sp, r)" "after = [] \<or> hd after = CHR 0x0A"
  shows "\<exists>v. y = sp @ v \<and> r = v @ after \<and> matchSpan y = Some (sp, v)"
proof -
  from matchSpan_append [OF assms(1)] have eq: "y @ after = sp @ r" .
  from matchSpan_chars [OF assms(1)] have nl: "CHR 0x0A \<notin> set sp" by blast
  from eq obtain us where us: "y = sp @ us \<and> us @ after = r \<or> y @ us = sp \<and> after = us @ r"
    unfolding append_eq_append_conv2 by blast
  have "\<exists>v. y = sp @ v \<and> r = v @ after"
  proof (cases "y = sp @ us \<and> us @ after = r")
    case True
    then show ?thesis by blast
  next
    case False
    with us have 2: "y @ us = sp" "after = us @ r" by simp_all
    show ?thesis
    proof (cases us)
      case Nil
      with 2 show ?thesis by simp
    next
      case (Cons d ds)
      with 2 assms(2) have "d = CHR 0x0A" by simp
      with 2(1) Cons nl show ?thesis by auto
    qed
  qed
  then obtain v where v: "y = sp @ v" "r = v @ after" by blast
  from matchSpan_extend [OF assms(1), of v] v show ?thesis by simp
qed

text \<open>
  \<open>matchHere\<close> fails exactly when the second group matches at no position of the
  first line.
\<close>

lemma matchHere_span_exists:
  assumes "matchSpan t = Some x"
  shows "matchHere t \<noteq> None"
proof -
  obtain g2 r where x: "x = (g2, r)" by (cases x)
  from assms obtain c cs where t: "t = c # cs" by (cases t) auto
  show ?thesis
  proof (cases "if isDot c then matchHere cs else None")
    case None
    with assms show ?thesis unfolding t x by (simp add: matchHere.simps)
  next
    case (Some y)
    then show ?thesis unfolding t by (cases y) (simp add: matchHere.simps)
  qed
qed

lemma matchHere_None_spans:
  "matchHere (u @ t) = None \<Longrightarrow> CHR 0x0A \<notin> set u \<Longrightarrow> matchSpan t = None"
proof (induction u)
  case Nil
  then have n: "matchHere t = None" by simp
  show ?case
  proof (cases "matchSpan t")
    case None
    then show ?thesis .
  next
    case (Some x)
    from matchHere_span_exists [OF this] n show ?thesis by simp
  qed
next
  case (Cons a u)
  from Cons.prems(2) have a: "isDot a" by (auto simp: isDot_def)
  from Cons.prems(1) have "matchHere (a # (u @ t)) = None" by simp
  from matchHere_None_tail [OF this a] Cons show ?case by simp
qed

lemma matchHere_None_intro:
  "(\<And>u t. s = u @ t \<Longrightarrow> CHR 0x0A \<notin> set u \<Longrightarrow> matchSpan t = None) \<Longrightarrow> matchHere s = None"
proof (induction s)
  case Nil
  show ?case by simp
next
  case (Cons c cs)
  have sp: "matchSpan (c # cs) = None" by (rule Cons.prems [of "[]"]) simp_all
  have "isDot c \<Longrightarrow> matchHere cs = None"
  proof (rule Cons.IH)
    fix u t assume "isDot c" "cs = u @ t" "CHR 0x0A \<notin> set u"
    then show "matchSpan t = None" by (intro Cons.prems [of "c # u"]) (auto simp: isDot_def)
  qed
  with sp show ?case by (simp add: matchHere.simps)
qed

text \<open>
  What a match of \<open>matchHere\<close> is: the first group holds no newline, the second
  group matches where it ends and at no later position of the line, and the third
  group is the rest of the line.
\<close>

lemma matchHere_Some:
  "matchHere z = Some (g1, g2, g3) \<Longrightarrow>
   \<exists>rest r. z = g1 @ rest \<and> CHR 0x0A \<notin> set g1 \<and> matchSpan rest = Some (g2, r) \<and>
     g3 = takeWhile isDot r \<and>
     (\<forall>u t. rest = u @ t \<and> u \<noteq> [] \<and> CHR 0x0A \<notin> set u \<longrightarrow> matchSpan t = None)"
proof (induction z arbitrary: g1)
  case Nil
  then show ?case by simp
next
  case (Cons c cs)
  show ?case
  proof (cases "if isDot c then matchHere cs else None")
    case None
    with Cons.prems obtain r where sp: "matchSpan (c # cs) = Some (g2, r)" and
      g: "g1 = []" "g3 = takeWhile isDot r"
      by (auto simp: matchHere.simps split: option.splits)
    from matchSpan_first [OF sp] have "isDot c" by (simp add: isDot_def)
    with None have n: "matchHere cs = None" by simp
    have "\<forall>u t. c # cs = u @ t \<and> u \<noteq> [] \<and> CHR 0x0A \<notin> set u \<longrightarrow> matchSpan t = None"
    proof (intro allI impI)
      fix u t assume a: "c # cs = u @ t \<and> u \<noteq> [] \<and> CHR 0x0A \<notin> set u"
      then obtain u' where "u = c # u'" "cs = u' @ t" by (cases u) auto
      with n a show "matchSpan t = None" by (intro matchHere_None_spans [of u']) auto
    qed
    with sp g show ?thesis by auto
  next
    case (Some x)
    then obtain h1 where h: "isDot c" "matchHere cs = Some (h1, g2, g3)" "g1 = c # h1"
      using Cons.prems by (cases x) (auto simp: matchHere.simps split: if_splits)
    from h(1) have c: "c \<noteq> CHR 0x0A" by (simp add: isDot_def)
    from Cons.IH [OF h(2)] obtain rest r where
      "cs = h1 @ rest" "CHR 0x0A \<notin> set h1" "matchSpan rest = Some (g2, r)"
      "g3 = takeWhile isDot r"
      "\<forall>u t. rest = u @ t \<and> u \<noteq> [] \<and> CHR 0x0A \<notin> set u \<longrightarrow> matchSpan t = None"
      by blast
    with h(3) c have "c # cs = g1 @ rest \<and> CHR 0x0A \<notin> set g1 \<and> matchSpan rest = Some (g2, r) \<and>
      g3 = takeWhile isDot r \<and>
      (\<forall>u t. rest = u @ t \<and> u \<noteq> [] \<and> CHR 0x0A \<notin> set u \<longrightarrow> matchSpan t = None)"
      by simp
    then show ?thesis by (intro exI)
  qed
qed

lemma matchHere_built:
  assumes "CHR 0x0A \<notin> set g1" "matchSpan rest = Some (g2, r)"
    "\<And>u t. rest = u @ t \<Longrightarrow> u \<noteq> [] \<Longrightarrow> CHR 0x0A \<notin> set u \<Longrightarrow> matchSpan t = None"
  shows "matchHere (g1 @ rest) = Some (g1, g2, takeWhile isDot r)"
  using assms(1)
proof (induction g1)
  case Nil
  from assms(2) obtain c cs where rest: "rest = c # cs" by (cases rest) auto
  with assms(2) have c: "c = CHR ''{''" by (auto dest: matchSpan_first)
  have "matchHere cs = None"
  proof (rule matchHere_None_intro)
    fix u t assume "cs = u @ t" "CHR 0x0A \<notin> set u"
    with rest c show "matchSpan t = None" by (intro assms(3) [of "c # u"]) auto
  qed
  with assms(2) rest show ?case by (simp add: matchHere.simps)
next
  case (Cons a g1)
  from Cons.prems have "isDot a" by (auto simp: isDot_def)
  moreover from Cons have "matchHere (g1 @ rest) = Some (g1, g2, takeWhile isDot r)" by simp
  ultimately show ?case by (simp add: matchHere.simps)
qed

lemma FindStringSubmatch_span:
  "matchSpan t = Some x \<Longrightarrow> FindStringSubmatch (p @ t) \<noteq> []"
proof (induction p)
  case Nil
  then obtain c cs where t: "t = c # cs" by (cases t) auto
  from matchHere_span_exists [OF Nil] obtain g1 g2 g3 where "matchHere t = Some (g1, g2, g3)"
    by auto
  then show ?case unfolding t by simp
next
  case (Cons a p)
  then show ?case by (cases "matchHere (a # p @ t)") auto
qed

lemma MatchString_span:
  assumes "matchSpan t = Some (sp, r)"
  shows "MatchString (p @ sp @ q)"
  unfolding MatchString_def
  using matchSpan_extend [OF assms, of q] by (rule FindStringSubmatch_span)

lemma FindStringSubmatch_position:
  "FindStringSubmatch x \<noteq> [] \<Longrightarrow> \<exists>w y. x = w @ y \<and> matchHere y \<noteq> None"
proof (induction x)
  case Nil
  then show ?case by simp
next
  case (Cons c cs)
  show ?case
  proof (cases "matchHere (c # cs)")
    case None
    with Cons obtain w y where "cs = w @ y" "matchHere y \<noteq> None" by auto
    then have "c # cs = (c # w) @ y \<and> matchHere y \<noteq> None" by simp
    then show ?thesis by blast
  next
    case (Some a)
    then have "c # cs = [] @ (c # cs) \<and> matchHere (c # cs) \<noteq> None" by simp
    then show ?thesis by blast
  qed
qed

lemma MatchString_position:
  assumes "MatchString x"
  shows "\<exists>p sp q. x = p @ sp @ q \<and> matchSpan (sp @ q) = Some (sp, q)"
proof -
  from assms obtain w y where x: "x = w @ y" and "matchHere y \<noteq> None"
    unfolding MatchString_def by (auto dest: FindStringSubmatch_position)
  then obtain g1 g2 g3 where "matchHere y = Some (g1, g2, g3)" by auto
  from matchHere_Some [OF this] obtain rest r where
    y: "y = g1 @ rest" and sp: "matchSpan rest = Some (g2, r)" by blast
  from matchSpan_append [OF sp] have "rest = g2 @ r" .
  with x y sp have "x = (w @ g1) @ g2 @ r \<and> matchSpan (g2 @ r) = Some (g2, r)" by simp
  then show ?thesis by blast
qed

text \<open>The third group of a match holds no span: the first group is greedy.\<close>

lemma matchHere_rest_plain:
  assumes "matchHere z = Some (g1, g2, g3)"
  shows "\<not> MatchString g3"
proof
  assume "MatchString g3"
  then obtain p sp q where g3: "g3 = p @ sp @ q" and sp: "matchSpan (sp @ q) = Some (sp, q)"
    by (auto dest: MatchString_position)
  from matchHere_Some [OF assms] obtain rest r where
    m: "matchSpan rest = Some (g2, r)" and t: "g3 = takeWhile isDot r" and
    mx: "\<forall>u t. rest = u @ t \<and> u \<noteq> [] \<and> CHR 0x0A \<notin> set u \<longrightarrow> matchSpan t = None"
    by blast
  from matchSpan_append [OF m] have rest: "rest = g2 @ r" .
  have r: "r = g3 @ dropWhile isDot r" by (simp add: t)
  from matchSpan_chars [OF m] have g2: "g2 \<noteq> []" "CHR 0x0A \<notin> set g2" by auto
  have "CHR 0x0A \<notin> set g3" unfolding t by (auto dest: set_takeWhileD simp: isDot_def)
  with g3 have p: "CHR 0x0A \<notin> set p" by simp
  have "rest = (g2 @ p) @ (sp @ q @ dropWhile isDot r)"
    unfolding rest by (subst r) (simp add: g3)
  moreover have "g2 @ p \<noteq> []" "CHR 0x0A \<notin> set (g2 @ p)" using g2 p by simp_all
  ultimately have "matchSpan (sp @ q @ dropWhile isDot r) = None" using mx by blast
  with matchSpan_extend [OF sp, of "q @ dropWhile isDot r"] show False by simp
qed


lemma append_eq_cases:
  "a @ b = u @ t \<Longrightarrow> (\<exists>w. w \<noteq> [] \<and> a = u @ w \<and> t = w @ b) \<or> (\<exists>w. u = a @ w \<and> b = w @ t)"
  by (auto simp: append_eq_append_conv2)

lemma matchSpan_newline [simp]: "matchSpan (CHR 0x0A # s) = None"
  by (simp add: matchSpan_def)

lemma takeWhile_line:
  "CHR 0x0A \<notin> set g3 \<Longrightarrow> after = [] \<or> hd after = CHR 0x0A \<Longrightarrow> takeWhile isDot (g3 @ after) = g3"
proof -
  assume "CHR 0x0A \<notin> set g3" and after: "after = [] \<or> hd after = CHR 0x0A"
  then have all: "\<forall>c\<in>set g3. isDot c" by (auto simp: isDot_def)
  have nl: "\<not> isDot (CHR 0x0A)" by (simp add: isDot_def)
  show ?thesis
  proof (cases after)
    case Nil
    with all show ?thesis by (simp add: takeWhile_eq_all_conv)
  next
    case (Cons d ds)
    with after have "after = CHR 0x0A # ds" by simp
    with takeWhile_run [OF all nl, of ds] show ?thesis by simp
  qed
qed

text \<open>
  No span starts inside a span, nor in a text of the line that holds none: the
  match of \<open>matchHere\<close> on a line whose last span is \<open>g2\<close>.
\<close>

lemma matchHere_line:
  assumes "CHR 0x0A \<notin> set g1" "matchSpan g2 = Some (g2, [])" "CHR 0x0A \<notin> set g3"
    "\<not> MatchString g3" "after = [] \<or> hd after = CHR 0x0A"
  shows "matchHere (g1 @ g2 @ g3 @ after) = Some (g1, g2, g3)"
proof -
  have sp: "matchSpan (g2 @ g3 @ after) = Some (g2, g3 @ after)"
    by (rule matchSpan_extend [OF assms(2)])
  from matchSpan_chars [OF assms(2)] obtain g where
    g2: "g2 = CHR ''{'' # g" "CHR ''{'' \<notin> set g" by blast
  have mx: "matchSpan t = None"
    if eq: "g2 @ g3 @ after = u @ t" and ne: "u \<noteq> []" and nl: "CHR 0x0A \<notin> set u" for u t
  proof (rule ccontr)
    assume "matchSpan t \<noteq> None"
    then obtain x r where x: "matchSpan t = Some (x, r)" by auto
    from append_eq_cases [OF eq] show False
    proof (elim disjE exE conjE)
      fix w assume w: "w \<noteq> []" "g2 = u @ w" "t = w @ g3 @ after"
      then obtain c cs where c: "w = c # cs" by (cases w) auto
      from w(2) ne g2 c have "c \<in> set g" by (cases u) auto
      with g2(2) have "c \<noteq> CHR ''{''" by auto
      moreover from x w(3) c have "c = CHR ''{''" by (auto dest: matchSpan_first)
      ultimately show False by simp
    next
      fix w assume w: "u = g2 @ w" "g3 @ after = w @ t"
      with nl have nw: "CHR 0x0A \<notin> set w" by simp
      from append_eq_cases [OF w(2)] show False
      proof (elim disjE exE conjE)
        fix y assume y: "y \<noteq> []" "g3 = w @ y" "t = y @ after"
        from x y(3) assms(5) obtain v where "y = x @ v" "matchSpan y = Some (x, v)"
          by (auto dest: matchSpan_restrict)
        with MatchString_span [of y x v w v] y(2) assms(4) show False by simp
      next
        fix y assume y: "w = g3 @ y" "after = y @ t"
        show False
        proof (cases y)
          case Nil
          with y x assms(5) show ?thesis by (cases after) auto
        next
          case (Cons d ds)
          with y assms(5) have "d = CHR 0x0A" by auto
          with Cons y(1) nw show ?thesis by simp
        qed
      qed
    qed
  qed
  from matchHere_built [OF assms(1) sp mx] takeWhile_line [OF assms(3,5)]
  show ?thesis by simp
qed

lemma matchHere_shorter:
  assumes "matchHere (x @ z) = None"
  shows "matchHere x = None"
proof (rule matchHere_None_intro)
  fix u t assume x: "x = u @ t" and nl: "CHR 0x0A \<notin> set u"
  from assms have "matchHere (u @ (t @ z)) = None" by (simp add: x)
  from matchHere_None_spans [OF this nl] have n: "matchSpan (t @ z) = None" .
  show "matchSpan t = None"
  proof (cases "matchSpan t")
    case None
    then show ?thesis .
  next
    case (Some a)
    obtain sp r where a: "a = (sp, r)" by (cases a)
    from Some a matchSpan_append [of t sp r] have "t = sp @ r" by simp
    with matchSpan_extend [of t sp r "r @ z"] Some a n show ?thesis by simp
  qed
qed

lemma matchHere_next_line:
  assumes "x \<noteq> []" "last x = CHR 0x0A" "matchHere x = None"
  shows "matchHere (x @ z) = None"
proof (rule matchHere_None_intro)
  fix u t assume eq: "x @ z = u @ t" and nl: "CHR 0x0A \<notin> set u"
  from assms(1,2) have x: "x = butlast x @ [CHR 0x0A]" by (metis append_butlast_last_id)
  define x0 where "x0 = butlast x"
  from x eq have "x0 @ (CHR 0x0A # z) = u @ t" by (simp add: x0_def) (metis append_Cons append_Nil append_assoc)
  from append_eq_cases [OF this] show "matchSpan t = None"
  proof (elim disjE exE conjE)
    fix w assume w: "w \<noteq> []" "x0 = u @ w" "t = w @ CHR 0x0A # z"
    show ?thesis
    proof (cases "matchSpan t")
      case None
      then show ?thesis .
    next
      case (Some a)
      obtain sp r where a: "a = (sp, r)" by (cases a)
      from Some a w(3) obtain v where v: "w = sp @ v" "matchSpan w = Some (sp, v)"
        using matchSpan_restrict [of w "CHR 0x0A # z" sp r] by auto
      from x w(2) have "x = u @ (w @ [CHR 0x0A])" by (simp add: x0_def)
      with assms(3) have "matchHere (u @ (w @ [CHR 0x0A])) = None" by simp
      from matchHere_None_spans [OF this nl] matchSpan_extend [OF v(2), of "v @ [CHR 0x0A]"] v(1)
      show ?thesis by simp
    qed
  next
    fix w assume w: "u = x0 @ w" "CHR 0x0A # z = w @ t"
    show ?thesis
    proof (cases w)
      case Nil
      with w(2) show ?thesis by auto
    next
      case (Cons d ds)
      with w nl show ?thesis by auto
    qed
  qed
qed


lemma matchHere_shape:
  assumes "matchHere z = Some (g1, g2, g3)"
  shows "\<exists>after. z = g1 @ g2 @ g3 @ after \<and> CHR 0x0A \<notin> set g1 \<and>
    matchSpan g2 = Some (g2, []) \<and> CHR 0x0A \<notin> set g3 \<and> \<not> MatchString g3 \<and>
    (after = [] \<or> hd after = CHR 0x0A)"
proof -
  from matchHere_Some [OF assms] obtain rest r where
    z: "z = g1 @ rest" and nl: "CHR 0x0A \<notin> set g1" and m: "matchSpan rest = Some (g2, r)" and
    g3: "g3 = takeWhile isDot r"
    by blast
  define after where "after = dropWhile isDot r"
  from matchSpan_append [OF m] have "rest = g2 @ r" .
  moreover have "r = g3 @ after" by (simp add: g3 after_def)
  ultimately have 1: "z = g1 @ g2 @ g3 @ after" using z by simp
  from matchSpan_extend [OF m, of "[]"] have 2: "matchSpan g2 = Some (g2, [])" by simp
  have 3: "CHR 0x0A \<notin> set g3" unfolding g3 by (auto dest: set_takeWhileD simp: isDot_def)
  have 4: "\<not> MatchString g3" using assms by (rule matchHere_rest_plain)
  have 5: "after = [] \<or> hd after = CHR 0x0A"
    unfolding after_def using hd_dropWhile [of isDot r] by (auto simp: isDot_def)
  from 1 nl 2 3 4 5 show ?thesis by blast
qed

text \<open>
  \<open>FindStringSubmatch\<close> returns the match of the first line that holds a span: the
  text before it is made of whole lines with no span.
\<close>

lemma FindStringSubmatch_Nil_Cons:
  "FindStringSubmatch (c # b) = [] \<longleftrightarrow> matchHere (c # b) = None \<and> FindStringSubmatch b = []"
proof (cases "matchHere (c # b)")
  case None
  then show ?thesis by simp
next
  case (Some x)
  then show ?thesis by (cases x) auto
qed

lemma FindStringSubmatch_built:
  assumes "\<not> MatchString before" "before = [] \<or> last before = CHR 0x0A"
    "matchHere z = Some (g1, g2, g3)"
  shows "FindStringSubmatch (before @ z) = [g1 @ g2 @ g3, g1, g2, g3]"
  using assms(1,2)
proof (induction before)
  case Nil
  from assms(3) obtain c cs where "z = c # cs" by (cases z) auto
  with assms(3) show ?case by simp
next
  case (Cons c b)
  from Cons.prems(1) have "FindStringSubmatch (c # b) = []"
    by (simp only: MatchString_def not_not)
  then have n: "matchHere (c # b) = None" "FindStringSubmatch b = []"
    by (simp_all only: FindStringSubmatch_Nil_Cons)
  from Cons.prems(2) have l: "last (c # b) = CHR 0x0A" by simp
  from matchHere_next_line [OF _ l n(1), of z] have "matchHere (c # b @ z) = None" by simp
  then have "FindStringSubmatch ((c # b) @ z) = FindStringSubmatch (b @ z)" by simp
  moreover from l have "b = [] \<or> last b = CHR 0x0A" by (cases b) auto
  ultimately show ?case using Cons.IH n(2) by (simp add: MatchString_def)
qed

lemma FindStringSubmatch_line_built:
  assumes "\<not> MatchString before" "before = [] \<or> last before = CHR 0x0A"
    "CHR 0x0A \<notin> set g1" "matchSpan g2 = Some (g2, [])" "CHR 0x0A \<notin> set g3"
    "\<not> MatchString g3" "after = [] \<or> hd after = CHR 0x0A"
  shows "FindStringSubmatch (before @ g1 @ g2 @ g3 @ after) = [g1 @ g2 @ g3, g1, g2, g3]"
  using assms(1,2) matchHere_line [OF assms(3-7)] by (rule FindStringSubmatch_built)

lemma FindStringSubmatch_shape:
  "FindStringSubmatch s = [m, g1, g2, g3] \<Longrightarrow>
   \<exists>before after. s = before @ g1 @ g2 @ g3 @ after \<and> m = g1 @ g2 @ g3 \<and>
     \<not> MatchString before \<and> (before = [] \<or> last before = CHR 0x0A) \<and>
     CHR 0x0A \<notin> set g1 \<and> matchSpan g2 = Some (g2, []) \<and> CHR 0x0A \<notin> set g3 \<and>
     \<not> MatchString g3 \<and> (after = [] \<or> hd after = CHR 0x0A) \<and>
     matchHere (g1 @ g2 @ g3 @ after) = Some (g1, g2, g3)"
proof (induction s)
  case Nil
  then show ?case by simp
next
  case (Cons c cs)
  show ?case
  proof (cases "matchHere (c # cs)")
    case (Some x)
    obtain k1 k2 k3 where x: "x = (k1, k2, k3)" by (cases x)
    from Some x Cons.prems have k: "k1 = g1" "k2 = g2" "k3 = g3" "m = g1 @ g2 @ g3" by auto
    from Some x k have mh: "matchHere (c # cs) = Some (g1, g2, g3)" by simp
    from matchHere_shape [OF mh] obtain after where
      a: "c # cs = g1 @ g2 @ g3 @ after" "CHR 0x0A \<notin> set g1"
      "matchSpan g2 = Some (g2, [])" "CHR 0x0A \<notin> set g3" "\<not> MatchString g3"
      "after = [] \<or> hd after = CHR 0x0A"
      by blast
    have "\<not> MatchString []" by (simp add: MatchString_def)
    moreover from a(1) have "c # cs = [] @ g1 @ g2 @ g3 @ after" by simp
    moreover from mh have "matchHere (g1 @ g2 @ g3 @ after) = Some (g1, g2, g3)"
      unfolding a(1) .
    moreover have "([] :: string) = [] \<or> last [] = CHR 0x0A" by simp
    ultimately have "c # cs = [] @ g1 @ g2 @ g3 @ after \<and> m = g1 @ g2 @ g3 \<and>
     \<not> MatchString [] \<and> (([] :: string) = [] \<or> last [] = CHR 0x0A) \<and>
     CHR 0x0A \<notin> set g1 \<and> matchSpan g2 = Some (g2, []) \<and> CHR 0x0A \<notin> set g3 \<and>
     \<not> MatchString g3 \<and> (after = [] \<or> hd after = CHR 0x0A) \<and>
     matchHere (g1 @ g2 @ g3 @ after) = Some (g1, g2, g3)"
      using k(4) a(2-6) by (intro conjI)
    then show ?thesis by (intro exI)
  next
    case None
    with Cons.prems have "FindStringSubmatch cs = [m, g1, g2, g3]" by simp
    from Cons.IH [OF this] obtain before after where
      a: "cs = before @ g1 @ g2 @ g3 @ after" "m = g1 @ g2 @ g3"
      "\<not> MatchString before" "before = [] \<or> last before = CHR 0x0A"
      "CHR 0x0A \<notin> set g1" "matchSpan g2 = Some (g2, [])" "CHR 0x0A \<notin> set g3"
      "\<not> MatchString g3" "after = [] \<or> hd after = CHR 0x0A"
      "matchHere (g1 @ g2 @ g3 @ after) = Some (g1, g2, g3)"
      by blast
    from None a(1) have "matchHere ((c # before) @ (g1 @ g2 @ g3 @ after)) = None" by simp
    then have n: "matchHere (c # before) = None" by (rule matchHere_shorter)
    with a(3) have 1: "\<not> MatchString (c # before)"
      by (simp only: MatchString_def not_not FindStringSubmatch_Nil_Cons)
    have 2: "last (c # before) = CHR 0x0A"
    proof (cases before)
      case Nil
      have "\<not> isDot c"
      proof
        assume "isDot c"
        with None have "matchHere cs = None" by (rule matchHere_None_tail)
        moreover from a(1) Nil have "cs = g1 @ g2 @ g3 @ after" by simp
        ultimately have "matchHere (g1 @ g2 @ g3 @ after) = None" by simp
        with a(10) show False by simp
      qed
      with Nil show ?thesis by (simp add: isDot_def)
    next
      case (Cons d ds)
      with a(4) show ?thesis by simp
    qed
    from a(1) have 0: "c # cs = (c # before) @ g1 @ g2 @ g3 @ after" by simp
    from 2 have 3: "c # before = [] \<or> last (c # before) = CHR 0x0A" by (rule disjI2)
    from 0 a(2) 1 3 a(5-10)
    have "c # cs = (c # before) @ g1 @ g2 @ g3 @ after \<and> m = g1 @ g2 @ g3 \<and>
     \<not> MatchString (c # before) \<and> (c # before = [] \<or> last (c # before) = CHR 0x0A) \<and>
     CHR 0x0A \<notin> set g1 \<and> matchSpan g2 = Some (g2, []) \<and> CHR 0x0A \<notin> set g3 \<and>
     \<not> MatchString g3 \<and> (after = [] \<or> hd after = CHR 0x0A) \<and>
     matchHere (g1 @ g2 @ g3 @ after) = Some (g1, g2, g3)"
      by (intro conjI)
    then show ?thesis by (intro exI)
  qed
qed

subsection \<open>The loop of findPatterns\<close>

lemma spelled_Nil [simp]: "spelled [] [] = []"
  by (simp add: spelled_def)

lemma spelled_snoc:
  "length ps = length toks \<Longrightarrow>
   spelled (ps @ [p]) (toks @ [t]) = Prefix p @ t @ Suffix p @ spelled ps toks"
  by (simp add: spelled_def)

lemma findLoop_Inr:
  assumes "findLoop P parts pf ps = Some (Inr (parts', ps'))"
    "parts = [g1, g2, g3]" "pf = MatchString g1" "CHR 0x0A \<notin> set g1"
    "list_all2 (\<lambda>p t. P t = Some (Inr (Seq p))) ps toks"
  shows "\<exists>h1 h2 h3 toks' new. parts' = [h1, h2, h3] \<and> \<not> MatchString h1 \<and>
      list_all2 (\<lambda>p t. P t = Some (Inr (Seq p))) ps' toks' \<and>
      h1 @ h2 @ h3 @ spelled ps' toks' = g1 @ g2 @ g3 @ spelled ps toks \<and>
      ps' = ps @ new \<and> (\<forall>p\<in>set new. Prefix p = [])"
  using assms
proof (induction P parts pf ps arbitrary: g1 g2 g3 toks rule: findLoop.induct)
  case (1 P parts pf ps)
  show ?case
  proof (cases pf)
    case False
    with "1.prems"(1) have "parts' = parts" "ps' = ps" by (simp_all add: findLoop.simps)
    with False "1.prems"(2,3,5) show ?thesis by auto
  next
    case True
    from "1.prems"(1,2) True obtain seq where seq: "P g2 = Some (Inr seq)"
      by (cases "P g2") (auto simp: findLoop.simps split: sum.splits)
    let ?ps1 = "ps @ [\<lparr>Prefix = [], Suffix = g3, Seq = seq\<rparr>]"
    from True "1.prems"(3) have ne: "FindStringSubmatch g1 \<noteq> []" by (simp add: MatchString_def)
    then obtain k1 k2 k3 where k: "FindStringSubmatch g1 = [g1, k1, k2, k3]" "g1 = k1 @ k2 @ k3"
      "CHR 0x0A \<notin> set k1"
      using "1.prems"(4) by (rule FindStringSubmatch_line)
    have step: "findLoop P parts pf ps = findLoop P [k1, k2, k3] (MatchString k1) ?ps1"
      using True "1.prems"(2) seq k(1) by (subst findLoop.simps) simp
    have len: "length ps = length toks" using "1.prems"(5) by (rule list_all2_lengthD)
    have all: "list_all2 (\<lambda>p t. P t = Some (Inr (Seq p))) ?ps1 (toks @ [g2])"
      using "1.prems"(5) seq by (simp add: list_all2_appendI)
    have "\<exists>h1 h2 h3 toks' new. parts' = [h1, h2, h3] \<and> \<not> MatchString h1 \<and>
      list_all2 (\<lambda>p t. P t = Some (Inr (Seq p))) ps' toks' \<and>
      h1 @ h2 @ h3 @ spelled ps' toks' = k1 @ k2 @ k3 @ spelled ?ps1 (toks @ [g2]) \<and>
      ps' = ?ps1 @ new \<and> (\<forall>p\<in>set new. Prefix p = [])"
    proof (rule "1.IH" [where ?x2.0 = "Inr seq" and b = seq and x = ?ps1
          and xa = "FindStringSubmatch g1" and ?g1.0 = k1 and ?g2.0 = k2 and ?g3.0 = k3
          and toks = "toks @ [g2]"])
      show pf by (rule True)
      show "P (parts ! 1) = Some (Inr seq)" using "1.prems"(2) seq by simp
      show "Inr seq = Inr seq" ..
      show "?ps1 = ps @ [\<lparr>Prefix = [], Suffix = parts ! 2, Seq = seq\<rparr>]"
        using "1.prems"(2) by simp
      show "FindStringSubmatch g1 = FindStringSubmatch (parts ! 0)" using "1.prems"(2) by simp
      show "0 < length (FindStringSubmatch g1)" using k(1) by simp
      show "findLoop P (tl (FindStringSubmatch g1)) (MatchString (tl (FindStringSubmatch g1) ! 0))
          ?ps1 = Some (Inr (parts', ps'))"
        using "1.prems"(1) step k(1) by simp
      show "tl (FindStringSubmatch g1) = [k1, k2, k3]" using k(1) by simp
      show "MatchString (tl (FindStringSubmatch g1) ! 0) = MatchString k1" using k(1) by simp
      show "CHR 0x0A \<notin> set k1" by (rule k(3))
      show "list_all2 (\<lambda>p t. P t = Some (Inr (Seq p))) ?ps1 (toks @ [g2])" by (rule all)
    qed
    then obtain h1 h2 h3 toks' new where h: "parts' = [h1, h2, h3]" "\<not> MatchString h1"
      "list_all2 (\<lambda>p t. P t = Some (Inr (Seq p))) ps' toks'"
      "h1 @ h2 @ h3 @ spelled ps' toks' = k1 @ k2 @ k3 @ spelled ?ps1 (toks @ [g2])"
      "ps' = ?ps1 @ new" "\<forall>p\<in>set new. Prefix p = []"
      by blast
    from h(4) k(2) len have "h1 @ h2 @ h3 @ spelled ps' toks' = g1 @ g2 @ g3 @ spelled ps toks"
      by (simp add: spelled_snoc)
    moreover from h(5) have "ps' = ps @ (\<lparr>Prefix = [], Suffix = g3, Seq = seq\<rparr> # new)" by simp
    moreover from h(6) have "\<forall>p\<in>set (\<lparr>Prefix = [], Suffix = g3, Seq = seq\<rparr> # new). Prefix p = []"
      by simp
    ultimately show ?thesis using h(1,2,3) by blast
  qed
qed

lemma findLoop_Inl:
  assumes "findLoop P parts pf ps = Some (Inl (ps', err))"
    "parts = [g1, g2, g3]" "pf = MatchString g1" "CHR 0x0A \<notin> set g1"
    "list_all2 (\<lambda>p t. P t = Some (Inr (Seq p))) ps toks"
  shows "\<exists>h1 tok h3 toks' new. P tok = Some (Inl err) \<and>
      list_all2 (\<lambda>p t. P t = Some (Inr (Seq p))) ps' toks' \<and>
      h1 @ tok @ h3 @ spelled ps' toks' = g1 @ g2 @ g3 @ spelled ps toks \<and>
      ps' = ps @ new \<and> (\<forall>p\<in>set new. Prefix p = [])"
  using assms
proof (induction P parts pf ps arbitrary: g1 g2 g3 toks rule: findLoop.induct)
  case (1 P parts pf ps)
  show ?case
  proof (cases pf)
    case False
    with "1.prems"(1) show ?thesis by (simp add: findLoop.simps)
  next
    case True
    show ?thesis
    proof (cases "P g2")
      case None
      with "1.prems"(1,2) True show ?thesis by (simp add: findLoop.simps)
    next
      case (Some res)
      show ?thesis
      proof (cases res)
        case (Inl e)
        with Some "1.prems"(1,2) True have "ps' = ps" "err = e" by (simp_all add: findLoop.simps)
        with Some Inl "1.prems"(5) show ?thesis by (metis append_Nil2 empty_iff empty_set)
      next
        case (Inr seq)
        with Some have seq: "P g2 = Some (Inr seq)" by simp
        let ?ps1 = "ps @ [\<lparr>Prefix = [], Suffix = g3, Seq = seq\<rparr>]"
        from True "1.prems"(3) have ne: "FindStringSubmatch g1 \<noteq> []"
          by (simp add: MatchString_def)
        then obtain k1 k2 k3 where k: "FindStringSubmatch g1 = [g1, k1, k2, k3]"
          "g1 = k1 @ k2 @ k3" "CHR 0x0A \<notin> set k1"
          using "1.prems"(4) by (rule FindStringSubmatch_line)
        have step: "findLoop P parts pf ps = findLoop P [k1, k2, k3] (MatchString k1) ?ps1"
          using True "1.prems"(2) seq k(1) by (subst findLoop.simps) simp
        have len: "length ps = length toks" using "1.prems"(5) by (rule list_all2_lengthD)
        have all: "list_all2 (\<lambda>p t. P t = Some (Inr (Seq p))) ?ps1 (toks @ [g2])"
          using "1.prems"(5) seq by (simp add: list_all2_appendI)
        have "\<exists>h1 tok h3 toks' new. P tok = Some (Inl err) \<and>
          list_all2 (\<lambda>p t. P t = Some (Inr (Seq p))) ps' toks' \<and>
          h1 @ tok @ h3 @ spelled ps' toks' = k1 @ k2 @ k3 @ spelled ?ps1 (toks @ [g2]) \<and>
          ps' = ?ps1 @ new \<and> (\<forall>p\<in>set new. Prefix p = [])"
        proof (rule "1.IH" [where ?x2.0 = "Inr seq" and b = seq and x = ?ps1
              and xa = "FindStringSubmatch g1" and ?g1.0 = k1 and ?g2.0 = k2 and ?g3.0 = k3
              and toks = "toks @ [g2]"])
          show pf by (rule True)
          show "P (parts ! 1) = Some (Inr seq)" using "1.prems"(2) seq by simp
          show "Inr seq = Inr seq" ..
          show "?ps1 = ps @ [\<lparr>Prefix = [], Suffix = parts ! 2, Seq = seq\<rparr>]"
            using "1.prems"(2) by simp
          show "FindStringSubmatch g1 = FindStringSubmatch (parts ! 0)"
            using "1.prems"(2) by simp
          show "0 < length (FindStringSubmatch g1)" using k(1) by simp
          show "findLoop P (tl (FindStringSubmatch g1))
              (MatchString (tl (FindStringSubmatch g1) ! 0)) ?ps1 = Some (Inl (ps', err))"
            using "1.prems"(1) step k(1) by simp
          show "tl (FindStringSubmatch g1) = [k1, k2, k3]" using k(1) by simp
          show "MatchString (tl (FindStringSubmatch g1) ! 0) = MatchString k1"
            using k(1) by simp
          show "CHR 0x0A \<notin> set k1" by (rule k(3))
          show "list_all2 (\<lambda>p t. P t = Some (Inr (Seq p))) ?ps1 (toks @ [g2])" by (rule all)
        qed
        then obtain h1 tok h3 toks' new where h: "P tok = Some (Inl err)"
          "list_all2 (\<lambda>p t. P t = Some (Inr (Seq p))) ps' toks'"
          "h1 @ tok @ h3 @ spelled ps' toks' = k1 @ k2 @ k3 @ spelled ?ps1 (toks @ [g2])"
          "ps' = ?ps1 @ new" "\<forall>p\<in>set new. Prefix p = []"
          by blast
        from h(3) k(2) len
        have "h1 @ tok @ h3 @ spelled ps' toks' = g1 @ g2 @ g3 @ spelled ps toks"
          by (simp add: spelled_snoc)
        moreover from h(4) have "ps' = ps @ (\<lparr>Prefix = [], Suffix = g3, Seq = seq\<rparr> # new)"
          by simp
        moreover from h(5)
        have "\<forall>p\<in>set (\<lparr>Prefix = [], Suffix = g3, Seq = seq\<rparr> # new). Prefix p = []"
          by simp
        ultimately show ?thesis using h(1,2) by blast
      qed
    qed
  qed
qed

lemma findPatterns_match:
  assumes "FindStringSubmatch arg = [m, g1, g2, g3]"
  shows "findPatterns arg P =
    (case findLoop P [g1, g2, g3] (MatchString g1) [] of
       None \<Rightarrow> None
     | Some (Inl (patterns, err)) \<Rightarrow> Some (patterns, Some err)
     | Some (Inr (parts2, patterns)) \<Rightarrow>
         (case (if length parts2 > 0
                then
                  (case P (parts2 ! 1) of
                     None \<Rightarrow> None
                   | Some (Inl err) \<Rightarrow> Some (Inl err)
                   | Some (Inr seq) \<Rightarrow>
                       Some (Inr (patterns @
                         [\<lparr>Prefix = parts2 ! 0, Suffix = parts2 ! 2, Seq = seq\<rparr>])))
                else Some (Inr patterns)) of
            None \<Rightarrow> None
          | Some (Inl err) \<Rightarrow> Some (patterns, Some err)
          | Some (Inr patterns2) \<Rightarrow>
              if list_ex hasBraces patterns2
              then Some ([], Some (ErrInvalidEllipsesFormatFn arg))
              else Some (patterns2, None)))"
  by (simp add: findPatterns_def assms Let_def)

text \<open>
  What \<open>findPatterns\<close> returns, when it returns: the format error with no pattern
  when nothing matches; or the error of the parser on a token, with the patterns of
  the tokens to its right; or all the patterns of the line, which the check for braces
  then accepts or rejects.
\<close>

lemma findPatterns_cases:
  assumes "findPatterns arg P = Some (v, e)"
  shows "(FindStringSubmatch arg = [] \<and> v = [] \<and> e = Some errFormat) \<or>
     (\<exists>before after toks tok h1 h3 err. FindStringSubmatch arg \<noteq> [] \<and>
        e = Some err \<and> P tok = Some (Inl err) \<and>
        arg = before @ h1 @ tok @ h3 @ spelled v toks @ after \<and>
        list_all2 (\<lambda>p t. P t = Some (Inr (Seq p))) v toks \<and> (\<forall>p\<in>set v. Prefix p = [])) \<or>
     (\<exists>before after toks ps. FindStringSubmatch arg \<noteq> [] \<and>
        arg = before @ spelled ps toks @ after \<and>
        list_all2 (\<lambda>p t. P t = Some (Inr (Seq p))) ps toks \<and> ps \<noteq> [] \<and>
        (\<forall>p\<in>set (butlast ps). Prefix p = []) \<and>
        (CHR 0x0A \<notin> set arg \<longrightarrow> before = [] \<and> after = []) \<and>
        (if list_ex hasBraces ps then v = [] \<and> e = Some (ErrInvalidEllipsesFormatFn arg)
         else v = ps \<and> e = None))"
proof (cases "FindStringSubmatch arg = []")
  case True
  with assms have "v = [] \<and> e = Some errFormat" by (simp add: findPatterns_def)
  with True show ?thesis by (intro disjI1) simp
next
  case False
  with FindStringSubmatch_cases [of arg] obtain g1 g2 g3 before after where
    m: "FindStringSubmatch arg = [g1 @ g2 @ g3, g1, g2, g3]" and
    arg: "arg = before @ g1 @ g2 @ g3 @ after" and nl: "CHR 0x0A \<notin> set g1" and
    whole: "CHR 0x0A \<notin> set arg \<longrightarrow> before = [] \<and> after = []"
    by blast
  note eq = findPatterns_match [OF m, of P, unfolded assms]
  have nil: "list_all2 (\<lambda>p t. P t = Some (Inr (Seq p))) [] []" by simp
  have arg': "arg = before @ (g1 @ g2 @ g3) @ after" using arg by simp
  show ?thesis
  proof (cases "findLoop P [g1, g2, g3] (MatchString g1) []")
    case None
    with eq show ?thesis by simp
  next
    case (Some res)
    show ?thesis
    proof (cases res)
      case (Inl x)
      obtain ps' err where x: "x = (ps', err)" by (cases x)
      from eq Some Inl x have ve: "v = ps'" "e = Some err" by simp_all
      from findLoop_Inl [OF Some [unfolded Inl x] refl refl nl nil]
      obtain h1 tok h3 toks' where t: "P tok = Some (Inl err)"
        "list_all2 (\<lambda>p t. P t = Some (Inr (Seq p))) ps' toks'"
        "h1 @ tok @ h3 @ spelled ps' toks' = g1 @ g2 @ g3" "\<forall>p\<in>set ps'. Prefix p = []"
        by auto
      have "arg = before @ h1 @ tok @ h3 @ spelled v toks' @ after"
        unfolding arg' t(3) [symmetric] ve by simp
      moreover have "list_all2 (\<lambda>p t. P t = Some (Inr (Seq p))) v toks'" "\<forall>p\<in>set v. Prefix p = []"
        using t(2,4) ve by simp_all
      ultimately have "FindStringSubmatch arg \<noteq> [] \<and>
        e = Some err \<and> P tok = Some (Inl err) \<and>
        arg = before @ h1 @ tok @ h3 @ spelled v toks' @ after \<and>
        list_all2 (\<lambda>p t. P t = Some (Inr (Seq p))) v toks' \<and> (\<forall>p\<in>set v. Prefix p = [])"
        using ve(2) False t(1) by blast
      then show ?thesis by (intro disjI2 disjI1 exI)
    next
      case (Inr y)
      obtain parts2 ps1 where y: "y = (parts2, ps1)" by (cases y)
      from findLoop_Inr [OF Some [unfolded Inr y] refl refl nl nil]
      obtain h1 h2 h3 toks' where h: "parts2 = [h1, h2, h3]"
        "list_all2 (\<lambda>p t. P t = Some (Inr (Seq p))) ps1 toks'"
        "h1 @ h2 @ h3 @ spelled ps1 toks' = g1 @ g2 @ g3" "\<forall>p\<in>set ps1. Prefix p = []"
        by auto
      have len: "length ps1 = length toks'" using h(2) by (rule list_all2_lengthD)
      show ?thesis
      proof (cases "P h2")
        case None
        with eq Some Inr y h(1) show ?thesis by simp
      next
        case r: (Some r)
        show ?thesis
        proof (cases r)
          case (Inl err)
          with eq Some Inr y h(1) r have ve: "v = ps1" "e = Some err" by simp_all
          from r Inl have t: "P h2 = Some (Inl err)" by simp
          have "arg = before @ h1 @ h2 @ h3 @ spelled v toks' @ after"
            unfolding arg' h(3) [symmetric] ve by simp
          moreover have "list_all2 (\<lambda>p t. P t = Some (Inr (Seq p))) v toks'"
              "\<forall>p\<in>set v. Prefix p = []"
            using h(2,4) ve by simp_all
          ultimately have "FindStringSubmatch arg \<noteq> [] \<and>
            e = Some err \<and> P h2 = Some (Inl err) \<and>
            arg = before @ h1 @ h2 @ h3 @ spelled v toks' @ after \<and>
            list_all2 (\<lambda>p t. P t = Some (Inr (Seq p))) v toks' \<and> (\<forall>p\<in>set v. Prefix p = [])"
            using ve(2) False t by blast
          then show ?thesis by (intro disjI2 disjI1 exI)
        next
          case seq: (Inr seq)
          let ?ps = "ps1 @ [\<lparr>Prefix = h1, Suffix = h3, Seq = seq\<rparr>]"
          from eq Some Inr y h(1) r seq
          have ve: "if list_ex hasBraces ?ps
              then v = [] \<and> e = Some (ErrInvalidEllipsesFormatFn arg) else v = ?ps \<and> e = None"
            by (simp split: if_splits)
          have sp: "spelled ?ps (toks' @ [h2]) = g1 @ g2 @ g3"
            using h(3) len by (simp add: spelled_snoc)
          have all: "list_all2 (\<lambda>p t. P t = Some (Inr (Seq p))) ?ps (toks' @ [h2])"
            using h(2) r seq by (simp add: list_all2_appendI)
          have "arg = before @ spelled ?ps (toks' @ [h2]) @ after"
            unfolding arg' sp ..
          note B = this
          have D: "?ps \<noteq> []" by simp
          have E: "\<forall>p\<in>set (butlast ?ps). Prefix p = []" using h(4) by simp
          from False B all D E whole ve have "FindStringSubmatch arg \<noteq> [] \<and>
            arg = before @ spelled ?ps (toks' @ [h2]) @ after \<and>
            list_all2 (\<lambda>p t. P t = Some (Inr (Seq p))) ?ps (toks' @ [h2]) \<and> ?ps \<noteq> [] \<and>
            (\<forall>p\<in>set (butlast ?ps). Prefix p = []) \<and>
            (CHR 0x0A \<notin> set arg \<longrightarrow> before = [] \<and> after = []) \<and>
            (if list_ex hasBraces ?ps then v = [] \<and> e = Some (ErrInvalidEllipsesFormatFn arg)
             else v = ?ps \<and> e = None)"
            by blast
          then show ?thesis by (intro disjI2 exI)
        qed
      qed
    qed
  qed
qed

lemma FindEllipsesPatterns_cases:
  assumes "FindEllipsesPatterns arg = Some (v, e)"
  shows "(FindStringSubmatch arg = [] \<and> v = [] \<and> e = Some (ErrInvalidEllipsesFormatFn arg)) \<or>
     (\<exists>before after toks tok h1 h3 err. FindStringSubmatch arg \<noteq> [] \<and>
        e = Some err \<and> parseEllipsesRange tok = Some (Inl err) \<and>
        arg = before @ h1 @ tok @ h3 @ spelled v toks @ after \<and>
        list_all2 (\<lambda>p t. parseEllipsesRange t = Some (Inr (Seq p))) v toks \<and>
        (\<forall>p\<in>set v. Prefix p = [])) \<or>
     (\<exists>before after toks ps. FindStringSubmatch arg \<noteq> [] \<and>
        arg = before @ spelled ps toks @ after \<and>
        list_all2 (\<lambda>p t. parseEllipsesRange t = Some (Inr (Seq p))) ps toks \<and> ps \<noteq> [] \<and>
        (\<forall>p\<in>set (butlast ps). Prefix p = []) \<and>
        (CHR 0x0A \<notin> set arg \<longrightarrow> before = [] \<and> after = []) \<and>
        (if list_ex hasBraces ps then v = [] \<and> e = Some (ErrInvalidEllipsesFormatFn arg)
         else v = ps \<and> e = None))"
proof -
  from assms obtain e0 where f: "findPatterns arg parseEllipsesRange = Some (v, e0)" and
    e: "e = (if e0 = Some errFormat then Some (ErrInvalidEllipsesFormatFn arg) else e0)"
    by (cases "findPatterns arg parseEllipsesRange")
      (auto simp: FindEllipsesPatterns_def split: if_splits)
  from findPatterns_cases [OF f] show ?thesis
  proof (elim disjE exE conjE)
    assume "FindStringSubmatch arg = []" "v = []" "e0 = Some errFormat"
    with e show ?thesis by (intro disjI1) simp
  next
    fix before after toks tok h1 h3 err
    assume bad: "FindStringSubmatch arg \<noteq> []"
        "e0 = Some err" "parseEllipsesRange tok = Some (Inl err)"
        "arg = before @ h1 @ tok @ h3 @ spelled v toks @ after"
        "list_all2 (\<lambda>p t. parseEllipsesRange t = Some (Inr (Seq p))) v toks"
        "\<forall>p\<in>set v. Prefix p = []"
    from parseEllipsesRange_error_kinds [OF bad(3)] have "err \<noteq> errFormat" by auto
    with e bad(2) have "e = Some err" by simp
    with bad(1,3,4,5,6) have "FindStringSubmatch arg \<noteq> [] \<and>
        e = Some err \<and> parseEllipsesRange tok = Some (Inl err) \<and>
        arg = before @ h1 @ tok @ h3 @ spelled v toks @ after \<and>
        list_all2 (\<lambda>p t. parseEllipsesRange t = Some (Inr (Seq p))) v toks \<and>
        (\<forall>p\<in>set v. Prefix p = [])" by (intro conjI)
    then show ?thesis by (intro disjI2 disjI1 exI)
  next
    fix before after toks ps
    assume all: "FindStringSubmatch arg \<noteq> []"
        "arg = before @ spelled ps toks @ after"
        "list_all2 (\<lambda>p t. parseEllipsesRange t = Some (Inr (Seq p))) ps toks" "ps \<noteq> []"
        "\<forall>p\<in>set (butlast ps). Prefix p = []"
        "CHR 0x0A \<notin> set arg \<longrightarrow> before = [] \<and> after = []"
        "if list_ex hasBraces ps then v = [] \<and> e0 = Some (ErrInvalidEllipsesFormatFn arg)
         else v = ps \<and> e0 = None"
    from all(7) have "e0 \<noteq> Some errFormat"
      by (auto simp: ErrInvalidEllipsesFormatFn_def split: if_splits)
    with e have "e = e0" by simp
    with all(7) have "if list_ex hasBraces ps
        then v = [] \<and> e = Some (ErrInvalidEllipsesFormatFn arg) else v = ps \<and> e = None"
      by simp
    with all(1-6) have "FindStringSubmatch arg \<noteq> [] \<and>
        arg = before @ spelled ps toks @ after \<and>
        list_all2 (\<lambda>p t. parseEllipsesRange t = Some (Inr (Seq p))) ps toks \<and> ps \<noteq> [] \<and>
        (\<forall>p\<in>set (butlast ps). Prefix p = []) \<and>
        (CHR 0x0A \<notin> set arg \<longrightarrow> before = [] \<and> after = []) \<and>
        (if list_ex hasBraces ps then v = [] \<and> e = Some (ErrInvalidEllipsesFormatFn arg)
         else v = ps \<and> e = None)" by (intro conjI)
    then show ?thesis by (intro disjI2 exI)
  qed
qed

subsection \<open>argExpander\<close>

lemma foldl_argExpander:
  "x = Inr rs \<Longrightarrow>
   foldl (\<lambda>out lbl.
      case out of
        Inl e \<Rightarrow> Inl e
      | Inr out' \<Rightarrow>
          (case (x :: panic + string list list) of
             Inl e \<Rightarrow> Inl e
           | Inr rs \<Rightarrow> Inr (out' @ map (\<lambda>rlbls. rlbls @ [lbl]) rs)))
     (Inr acc) l =
   Inr (acc @ concat (map (\<lambda>lbl. map (\<lambda>rlbls. rlbls @ [lbl]) rs) l))"
  by (induction l arbitrary: acc) simp_all

text \<open>
  On a list of at least one label list, \<open>argExpander\<close> returns: the tuples are the
  tuples of the rest, each extended by a label of the first list.
\<close>

lemma argExpander_Cons:
  "argExpander ls = Inr rs \<Longrightarrow> ls \<noteq> [] \<Longrightarrow>
   argExpander (l # ls) = Inr (concat (map (\<lambda>lbl. map (\<lambda>rlbls. rlbls @ [lbl]) rs) l))"
proof -
  assume rs: "argExpander ls = Inr rs" and "ls \<noteq> []"
  then obtain v va where ls: "ls = v # va" by (cases ls) auto
  show ?thesis
    unfolding ls argExpander.simps(3)
    using foldl_argExpander [OF rs [unfolded ls], of "[]" l] by simp
qed

lemma argExpander_nonempty: "labels \<noteq> [] \<Longrightarrow> \<exists>out. argExpander labels = Inr out"
proof (induction labels)
  case Nil
  then show ?case by simp
next
  case (Cons l ls)
  show ?case
  proof (cases "ls = []")
    case True
    then show ?thesis by simp
  next
    case False
    with Cons.IH obtain rs where "argExpander ls = Inr rs" by blast
    from argExpander_Cons [OF this False] show ?thesis by blast
  qed
qed

text \<open>Every tuple holds one label for each label list.\<close>

lemma argExpander_lengths:
  "argExpander labels = Inr out \<Longrightarrow> \<forall>t\<in>set out. length t = length labels"
proof (induction labels arbitrary: out)
  case Nil
  then show ?case by simp
next
  case (Cons l ls)
  show ?case
  proof (cases "ls = []")
    case True
    with Cons.prems show ?thesis by auto
  next
    case False
    then obtain rs where rs: "argExpander ls = Inr rs"
      using argExpander_nonempty [of ls] by blast
    from argExpander_Cons [OF rs False, of l] Cons.prems
    have "out = concat (map (\<lambda>lbl. map (\<lambda>rlbls. rlbls @ [lbl]) rs) l)" by simp
    with Cons.IH [OF rs] show ?thesis by auto
  qed
qed

section \<open>The claims\<close>

subsection \<open>C1: a hexadecimal left boundary and a decimal right boundary\<close>

text \<open>
  Claim C1. The claim is that a range with a hexadecimal left boundary is read in
  base 16 as a whole, so that the end of \<^verbatim>\<open>{a...10}\<close> is 16. The code keeps one flag
  \<open>hexadecimal\<close> for the range and writes every label in base 16 once it is set, but
  it reads each boundary on its own: the text \<^verbatim>\<open>10\<close> passes the decimal parse and
  is never read in base 16 (lemma \<open>mixed_bases_boundaries\<close>, for every such token).
  The range is then read in two bases and written in one: \<^verbatim>\<open>{a...10}\<close> gives the
  single label \<open>a\<close>; \<^verbatim>\<open>{f...10}\<close> is refused with start 15 above end 10; and
  \<^verbatim>\<open>{10...1a}\<close>, where it is the left boundary that passes the decimal parse, starts
  at the label \<open>a\<close> and not at \<open>10\<close>.
\<close>

theorem mixed_bases_right_boundary_decimal:
  "isl (ParseUint ''a'' 10) \<and> ParseUint ''a'' 16 = Inr 10 \<and>
   ParseUint ''10'' 10 = Inr 10 \<and> ParseUint ''10'' 16 = Inr 16 \<and>
   parseBoundary ''a'' = Inr (10, True) \<and> parseBoundary ''10'' = Inr (10, False) \<and>
   parseEllipsesRange ''{a...10}'' = Some (Inr [''a'']) \<and>
   parseEllipsesRange ''{f...10}'' = Some (Inl (RangeOrderError 15 10)) \<and>
   parseEllipsesRange ''{10...1a}'' =
     Some (Inr ([''a'', ''b'', ''c'', ''d'', ''e'', ''f''] @ [''10'', ''11'', ''12'', ''13''] @
                [''14'', ''15'', ''16'', ''17''] @ [''18'', ''19'', ''1a'']))"
  by code_simp

subsection \<open>C2: the order of the patterns\<close>

theorem two_spans_rightmost_first:
  "parseEllipsesRange ''{1...2}'' = Some (Inr [''1'', ''2'']) \<and>
   parseEllipsesRange ''{1...3}'' = Some (Inr [''1'', ''2'', ''3'']) \<and>
   FindEllipsesPatterns ''pool{1...2}-disk{1...3}'' =
     Some ([\<lparr>Prefix = [], Suffix = [], Seq = [''1'', ''2'', ''3'']\<rparr>,
            \<lparr>Prefix = ''pool'', Suffix = ''-disk'', Seq = [''1'', ''2'']\<rparr>], None)"
  by code_simp

text \<open>
  Claim C2, amended. On every input on which \<open>FindEllipsesPatterns\<close> succeeds, the
  returned list holds the patterns in right-to-left order of their spans: the
  rightmost span's pattern is the first element and the leftmost span's is the last.
  Read from its last pattern to its first, each as prefix, token, suffix, the list
  spells the matched line of the input (the whole input when it has no newline);
  every token resolves to the labels of its pattern, only the last pattern has a
  prefix, and no prefix or suffix holds a brace.
\<close>

theorem patterns_listed_right_to_left:
  assumes "FindEllipsesPatterns arg = Some (ps, None)"
  shows "\<exists>toks before after.
      arg = before @ concat (map (\<lambda>(p, t). Prefix p @ t @ Suffix p) (rev (zip ps toks))) @ after \<and>
      list_all2 (\<lambda>p t. parseEllipsesRange t = Some (Inr (Seq p))) ps toks \<and>
      ps \<noteq> [] \<and> (\<forall>p\<in>set (butlast ps). Prefix p = []) \<and> (\<forall>p\<in>set ps. \<not> hasBraces p) \<and>
      (CHR 0x0A \<notin> set arg \<longrightarrow> before = [] \<and> after = [])"
  using FindEllipsesPatterns_cases [OF assms]
proof (elim disjE exE conjE)
  assume "(None :: error option) = Some (ErrInvalidEllipsesFormatFn arg)"
  then show ?thesis by simp
next
  fix err :: error
  assume "None = Some err"
  then show ?thesis by simp
next
  fix before after toks ps'
  assume a: "arg = before @ spelled ps' toks @ after"
      "list_all2 (\<lambda>p t. parseEllipsesRange t = Some (Inr (Seq p))) ps' toks" "ps' \<noteq> []"
      "\<forall>p\<in>set (butlast ps'). Prefix p = []"
      "CHR 0x0A \<notin> set arg \<longrightarrow> before = [] \<and> after = []" and
    b: "if list_ex hasBraces ps'
        then ps = [] \<and> None = Some (ErrInvalidEllipsesFormatFn arg)
        else ps = ps' \<and> (None :: error option) = None"
  from b have ps: "ps' = ps" and nb: "\<not> list_ex hasBraces ps" by (auto split: if_splits)
  from nb have "\<forall>p\<in>set ps. \<not> hasBraces p" by (simp add: list_ex_iff)
  with a [unfolded ps spelled_def]
  have "arg = before @ concat (map (\<lambda>(p, t). Prefix p @ t @ Suffix p) (rev (zip ps toks))) @ after \<and>
      list_all2 (\<lambda>p t. parseEllipsesRange t = Some (Inr (Seq p))) ps toks \<and>
      ps \<noteq> [] \<and> (\<forall>p\<in>set (butlast ps). Prefix p = []) \<and> (\<forall>p\<in>set ps. \<not> hasBraces p) \<and>
      (CHR 0x0A \<notin> set arg \<longrightarrow> before = [] \<and> after = [])"
    by (intro conjI)
  then show ?thesis by (intro exI)
qed

theorem patterns_listed_right_to_left_witness:
  "FindEllipsesPatterns ''pool{1...2}-disk{1...3}'' =
     Some ([\<lparr>Prefix = [], Suffix = [], Seq = [''1'', ''2'', ''3'']\<rparr>,
            \<lparr>Prefix = ''pool'', Suffix = ''-disk'', Seq = [''1'', ''2'']\<rparr>], None) \<and>
   (\<exists>toks before after.
      ''pool{1...2}-disk{1...3}'' =
        before @ concat (map (\<lambda>(p, t). Prefix p @ t @ Suffix p)
          (rev (zip [\<lparr>Prefix = [], Suffix = [], Seq = [''1'', ''2'', ''3'']\<rparr>,
                     \<lparr>Prefix = ''pool'', Suffix = ''-disk'', Seq = [''1'', ''2'']\<rparr>] toks))) @ after \<and>
      list_all2 (\<lambda>p t. parseEllipsesRange t = Some (Inr (Seq p)))
        [\<lparr>Prefix = [], Suffix = [], Seq = [''1'', ''2'', ''3'']\<rparr>,
         \<lparr>Prefix = ''pool'', Suffix = ''-disk'', Seq = [''1'', ''2'']\<rparr>] toks \<and>
      before = [] \<and> after = [])"
proof -
  have a: "FindEllipsesPatterns ''pool{1...2}-disk{1...3}'' =
     Some ([\<lparr>Prefix = [], Suffix = [], Seq = [''1'', ''2'', ''3'']\<rparr>,
            \<lparr>Prefix = ''pool'', Suffix = ''-disk'', Seq = [''1'', ''2'']\<rparr>], None)"
    by code_simp
  have b: "CHR 0x0A \<notin> set ''pool{1...2}-disk{1...3}''" by simp
  from patterns_listed_right_to_left [OF a] b a show ?thesis by blast
qed

subsection \<open>C3: the token {1...10}\<close>

theorem range_1_10_not_padded:
  "parseEllipsesRange ''{1...10}'' \<noteq>
     Some (Inr ([''01'', ''02'', ''03'', ''04'', ''05''] @ [''06'', ''07'', ''08'', ''09'', ''10'']))"
  by code_simp

text \<open>
  Claim C3, amended. The token \<^verbatim>\<open>{1...10}\<close> resolves to the labels 1, 2, ..., 10 with no
  padding, since neither boundary text begins with \<open>0\<close>; it is \<^verbatim>\<open>{01...10}\<close> that
  resolves to 01, 02, ..., 10, padded to the width 2 of the right boundary text.
\<close>

theorem range_1_10_labels:
  "parseEllipsesRange ''{1...10}'' =
     Some (Inr ([''1'', ''2'', ''3'', ''4'', ''5''] @ [''6'', ''7'', ''8'', ''9'', ''10''])) \<and>
   parseEllipsesRange ''{01...10}'' =
     Some (Inr ([''01'', ''02'', ''03'', ''04'', ''05''] @ [''06'', ''07'', ''08'', ''09'', ''10'']))"
  by code_simp

subsection \<open>C4: the errors of FindEllipsesPatterns\<close>




subsection \<open>C5: the patterns returned with an error\<close>




subsection \<open>C6: termination\<close>

text \<open>
  Claim C6. A call of \<open>parseEllipsesRange\<close> on a token whose end is the largest
  64-bit value does not return: the counter \<open>i\<close> wraps around to 0 after the last
  label and \<open>i <= end\<close> holds for every \<open>i\<close>, even when start and end are
  equal. \<open>FindEllipsesPatterns\<close> on such a token does not return either. By
  \<open>parseEllipsesRange_None_iff\<close> these are the only calls that do not return.
\<close>

theorem max_end_never_returns:
  "parseEllipsesRange ''{0...18446744073709551615}'' = None \<and>
   parseEllipsesRange ''{18446744073709551615...18446744073709551615}'' = None \<and>
   FindEllipsesPatterns ''{0...18446744073709551615}'' = None"
proof -
  have l: "parseBoundary ''0'' = Inr (0, False)" by code_simp
  have r: "parseBoundary ''18446744073709551615'' = Inr (- 1, False)" by code_simp
  have "\<not> (- 1 :: 64 word) < 0" by simp
  with parseEllipsesRange_token [OF l r]
  have p: "parseEllipsesRange ''{0...18446744073709551615}'' = None" by simp
  have "\<not> (- 1 :: 64 word) < - 1" by simp
  with parseEllipsesRange_token [OF r r]
  have q: "parseEllipsesRange ''{18446744073709551615...18446744073709551615}'' = None"
    by simp
  have parts: "FindStringSubmatch ''{0...18446744073709551615}'' =
      [''{0...18446744073709551615}'', [], ''{0...18446744073709551615}'', []]"
    by code_simp
  have m: "MatchString [] = False" by code_simp
  have "findPatterns ''{0...18446744073709551615}'' parseEllipsesRange = None"
    unfolding findPatterns_def parts Let_def by (simp add: m findLoop.simps p)
  with p q show ?thesis by (simp add: FindEllipsesPatterns_def)
qed

subsection \<open>C7: padding\<close>

text \<open>
  Claim C7. The code follows the padding policy of the claim on every range whose end
  is below the largest 64-bit value and whose right boundary text is shorter than
  10000010 characters (lemma \<open>parseEllipsesRange_labels\<close>). It misses it on the other
  ranges. With the end at the largest value no label is emitted, since the call does
  not return (the defect of claim C6): so for \<^verbatim>\<open>{00...18446744073709551615}\<close>, whose
  labels the claim pads to 20 characters. With a right boundary text of 10000010
  characters or more that begins with \<open>0\<close>, \<^verbatim>\<open>fmt\<close> does not read the width and
  every label is its complaint about the format: so for the range from 1 to 1 whose
  right boundary is written with 10000009 zeros before the 1.
\<close>

theorem padding_missed_at_max_end_and_long_width:
  "parseBoundary ''00'' = Inr (0, False) \<and>
   parseBoundary ''18446744073709551615'' = Inr (- 1, False) \<and>
   parseEllipsesRange ''{00...18446744073709551615}'' = None \<and>
   parseBoundary ''1'' = Inr (1, False) \<and>
   parseBoundary (replicate 10000009 (CHR ''0'') @ ''1'') = Inr (1, False) \<and>
   length (replicate 10000009 (CHR ''0'') @ ''1'') = 10000010 \<and>
   parseEllipsesRange (''{1...'' @ replicate 10000009 (CHR ''0'') @ ''1}'') =
     Some (Inr [''%!(NOVERB)%!(EXTRA uint64=1)''])"
proof -
  have l: "parseBoundary ''00'' = Inr (0, False)" by code_simp
  have r: "parseBoundary ''18446744073709551615'' = Inr (- 1, False)" by code_simp
  have "\<not> (- 1 :: 64 word) < 0" by simp
  with parseEllipsesRange_token [OF l r]
  have p: "parseEllipsesRange ''{00...18446744073709551615}'' = None" by simp
  have one: "parseBoundary ''1'' = Inr (1, False)" by code_simp
  have long: "parseBoundary (replicate 10000009 (CHR ''0'') @ ''1'') = Inr (1, False)"
    by (rule parseBoundary_zeros_one)
  have len: "length (replicate 10000009 (CHR ''0'') @ ''1'') = 10000010"
    by (simp only: length_append length_replicate) simp
  have q: "parseEllipsesRange (''{1...'' @ replicate 10000009 (CHR ''0'') @ ''1}'') =
     Some (Inr [''%!(NOVERB)%!(EXTRA uint64=1)''])"
    by (rule parseEllipsesRange_long_width) simp
  from l r p one long len q show ?thesis by (intro conjI)
qed

subsection \<open>C8: the failures of parseEllipsesRange\<close>

text \<open>
  Claim C8. For a token \<open>{body}\<close>, \<open>parseEllipsesRange\<close> returns an error exactly
  when \<open>body\<close> does not hold exactly one separator \<open>...\<close>, or one of the two
  boundaries parses neither as decimal nor as hexadecimal, or the start is above the
  end. The error is \<open>invalid argument\<close> in the first case, the error of \<open>ParseUint\<close> on
  the boundary's text in the second, and the error carrying both values in the third.
\<close>

theorem parseEllipsesRange_fails_iff:
  "((\<exists>err. parseEllipsesRange (''{'' @ body @ ''}'') = Some (Inl err)) \<longleftrightarrow>
      (Count body ellipses \<noteq> 1 \<or>
       (\<exists>l r. Split body ellipses = [l, r] \<and>
          (isl (ParseUint l 10) \<and> isl (ParseUint l 16) \<or>
           isl (ParseUint r 10) \<and> isl (ParseUint r 16) \<or>
           (\<exists>s e h0 h1. parseBoundary l = Inr (s, h0) \<and> parseBoundary r = Inr (e, h1) \<and> e < s))))) \<and>
   (Count body ellipses \<noteq> 1 \<longrightarrow>
      parseEllipsesRange (''{'' @ body @ ''}'') = Some (Inl InvalidArgument)) \<and>
   (\<forall>l r. Split body ellipses = [l, r] \<and> isl (ParseUint l 10) \<and> isl (ParseUint l 16) \<longrightarrow>
      (\<exists>k. parseEllipsesRange (''{'' @ body @ ''}'') = Some (Inl (NumError l k)))) \<and>
   (\<forall>l r. Split body ellipses = [l, r] \<and> \<not> isl (parseBoundary l) \<and>
        isl (ParseUint r 10) \<and> isl (ParseUint r 16) \<longrightarrow>
      (\<exists>k. parseEllipsesRange (''{'' @ body @ ''}'') = Some (Inl (NumError r k)))) \<and>
   (\<forall>l r s e h0 h1. Split body ellipses = [l, r] \<and> parseBoundary l = Inr (s, h0) \<and>
        parseBoundary r = Inr (e, h1) \<and> e < s \<longrightarrow>
      parseEllipsesRange (''{'' @ body @ ''}'') = Some (Inl (RangeOrderError s e)))"
proof (cases "Count body ellipses = 1")
  case False
  then have "\<nexists>l r. Split body ellipses = [l, r]" using Split_two_iff [of body] by blast
  with False parseEllipsesRange_not_two [of body] show ?thesis by auto
next
  case True
  then obtain l r where lr: "Split body ellipses = [l, r]" using Split_two_iff [of body] by blast
  note eq = parseEllipsesRange_two [OF lr]
  show ?thesis
  proof (cases "parseBoundary l")
    case (Inl err)
    then obtain k where "err = NumError l k" by (auto dest: parseBoundary_error)
    with Inl eq lr True parseBoundary_Inl_iff [of l] show ?thesis by auto
  next
    case l: (Inr x)
    obtain s h0 where x: "x = (s, h0)" by (cases x)
    show ?thesis
    proof (cases "parseBoundary r")
      case (Inl err)
      then obtain k where "err = NumError r k" by (auto dest: parseBoundary_error)
      with Inl l x eq lr True parseBoundary_Inl_iff [of l] parseBoundary_Inl_iff [of r]
      show ?thesis by auto
    next
      case r: (Inr y)
      obtain e h1 where y: "y = (e, h1)" by (cases y)
      have nl: "\<not> (isl (ParseUint l 10) \<and> isl (ParseUint l 16))"
        using l parseBoundary_Inl_iff [of l] by auto
      have nr: "\<not> (isl (ParseUint r 10) \<and> isl (ParseUint r 16))"
        using r parseBoundary_Inl_iff [of r] by auto
      show ?thesis
      proof (cases "e < s")
        case lt: True
        with l r x y eq lr True nl nr show ?thesis by auto
      next
        case ge: False
        have "parseEllipsesRange (''{'' @ body @ ''}'') = map_option Inr (seqLoop l r (h0 \<or> h1) s e [])"
          using l r x y eq ge by simp
        then have "\<nexists>err. parseEllipsesRange (''{'' @ body @ ''}'') = Some (Inl err)"
          by (cases "seqLoop l r (h0 \<or> h1) s e []") auto
        with l r x y lr True nl nr ge show ?thesis by auto
      qed
    qed
  qed
qed

theorem parseEllipsesRange_fails_witness:
  "Count ''1..2'' ellipses \<noteq> 1 \<and>
   parseEllipsesRange ''{1..2}'' = Some (Inl InvalidArgument) \<and>
   Split ''x...1'' ellipses = [''x'', ''1''] \<and>
   isl (ParseUint ''x'' 10) \<and> isl (ParseUint ''x'' 16) \<and>
   (\<exists>k. parseEllipsesRange ''{x...1}'' = Some (Inl (NumError ''x'' k))) \<and>
   Split ''4...1'' ellipses = [''4'', ''1''] \<and>
   parseBoundary ''4'' = Inr (4, False) \<and> parseBoundary ''1'' = Inr (1, False) \<and>
   (1 :: 64 word) < 4 \<and>
   parseEllipsesRange ''{4...1}'' = Some (Inl (RangeOrderError 4 1)) \<and>
   Split ''1...z'' ellipses = [''1'', ''z''] \<and> \<not> isl (parseBoundary ''1'') \<and>
   isl (ParseUint ''z'' 10) \<and> isl (ParseUint ''z'' 16) \<and>
   (\<exists>k. parseEllipsesRange ''{1...z}'' = Some (Inl (NumError ''z'' k)))"
proof -
  have a: "Count ''1..2'' ellipses \<noteq> 1" by code_simp
  have b: "Split ''x...1'' ellipses = [''x'', ''1'']" by code_simp
  have c: "isl (ParseUint ''x'' 10)" "isl (ParseUint ''x'' 16)" by code_simp+
  have d: "Split ''4...1'' ellipses = [''4'', ''1'']" by code_simp
  have e: "parseBoundary ''4'' = Inr (4, False)" "parseBoundary ''1'' = Inr (1, False)"
    by code_simp+
  have f: "(1 :: 64 word) < 4" by simp
  have g: "Split ''1...z'' ellipses = [''1'', ''z'']" by code_simp
  have h: "\<not> isl (parseBoundary ''1'')" "isl (ParseUint ''z'' 10)" "isl (ParseUint ''z'' 16)"
    by code_simp+
  have 1: "parseEllipsesRange ''{1..2}'' = Some (Inl InvalidArgument)"
    using parseEllipsesRange_fails_iff [of "''1..2''"] a by simp
  have 2: "\<exists>k. parseEllipsesRange ''{x...1}'' = Some (Inl (NumError ''x'' k))"
    using parseEllipsesRange_fails_iff [of "''x...1''", unfolded append.simps] b c by blast
  have 3: "parseEllipsesRange ''{4...1}'' = Some (Inl (RangeOrderError 4 1))"
    using parseEllipsesRange_fails_iff [of "''4...1''", unfolded append.simps] d e f by blast
  have 4: "\<exists>k. parseEllipsesRange ''{1...z}'' = Some (Inl (NumError ''z'' k))"
    using parseEllipsesRange_fails_iff [of "''1...z''", unfolded append.simps] g h by blast
  from a b c d e f g h 1 2 3 4 show ?thesis by blast
qed

subsection \<open>C9: two spans\<close>

text \<open>
  Claim C9. The input \<^verbatim>\<open>pool{1...2}-disk{1...2}\<close> parses into two patterns, and their
  expansion is the list of four tuples shown: the four combinations of a label of
  the one with a label of the other, each label between its own pattern's prefix and
  suffix, no tuple twice. The order is the one shown, the same at every call, since
  the expansion is a function of its argument.
\<close>

theorem pool_disk_expand:
  "FindEllipsesPatterns ''pool{1...2}-disk{1...2}'' =
     Some ([\<lparr>Prefix = [], Suffix = [], Seq = [''1'', ''2'']\<rparr>,
            \<lparr>Prefix = ''pool'', Suffix = ''-disk'', Seq = [''1'', ''2'']\<rparr>], None) \<and>
   ArgPattern_Expand
     [\<lparr>Prefix = [], Suffix = [], Seq = [''1'', ''2'']\<rparr>,
      \<lparr>Prefix = ''pool'', Suffix = ''-disk'', Seq = [''1'', ''2'']\<rparr>] =
     Inr [[''pool1-disk'', ''1''], [''pool2-disk'', ''1''],
          [''pool1-disk'', ''2''], [''pool2-disk'', ''2'']] \<and>
   set [[''pool1-disk'', ''1''], [''pool2-disk'', ''1''],
        [''pool1-disk'', ''2''], [''pool2-disk'', ''2'']] =
     (\<lambda>(a, b). [''pool'' @ a @ ''-disk'', b]) ` (set [''1'', ''2''] \<times> set [''1'', ''2'']) \<and>
   distinct [[''pool1-disk'', ''1''], [''pool2-disk'', ''1''],
        [''pool1-disk'', ''2''], [''pool2-disk'', ''2'']]"
proof -
  have a: "FindEllipsesPatterns ''pool{1...2}-disk{1...2}'' =
     Some ([\<lparr>Prefix = [], Suffix = [], Seq = [''1'', ''2'']\<rparr>,
            \<lparr>Prefix = ''pool'', Suffix = ''-disk'', Seq = [''1'', ''2'']\<rparr>], None)"
    by code_simp
  have b: "ArgPattern_Expand
     [\<lparr>Prefix = [], Suffix = [], Seq = [''1'', ''2'']\<rparr>,
      \<lparr>Prefix = ''pool'', Suffix = ''-disk'', Seq = [''1'', ''2'']\<rparr>] =
     Inr [[''pool1-disk'', ''1''], [''pool2-disk'', ''1''],
          [''pool1-disk'', ''2''], [''pool2-disk'', ''2'']]"
    by code_simp
  have c: "set [[''pool1-disk'', ''1''], [''pool2-disk'', ''1''],
        [''pool1-disk'', ''2''], [''pool2-disk'', ''2'']] =
     (\<lambda>(a, b). [''pool'' @ a @ ''-disk'', b]) ` (set [''1'', ''2''] \<times> set [''1'', ''2''])"
    by auto
  have d: "distinct [[''pool1-disk'', ''1''], [''pool2-disk'', ''1''],
        [''pool1-disk'', ''2''], [''pool2-disk'', ''2'']]"
    by simp
  from a b c d show ?thesis by (intro conjI)
qed

subsection \<open>C10: expansion of an empty ArgPattern\<close>

text \<open>
  Claim C10. \<open>ArgPattern.Expand\<close> on an \<open>ArgPattern\<close> with no pattern panics, on the
  read of \<open>labels[0]\<close>; on an \<open>ArgPattern\<close> with at least one pattern every
  read of \<open>labels[0]\<close> is in range and it returns a list of tuples, each with one
  label for every pattern.
\<close>

theorem Expand_returns_iff_nonempty:
  "ArgPattern_Expand [] = Inl IndexOutOfRange \<and>
   (a \<noteq> [] \<longrightarrow> (\<exists>out. ArgPattern_Expand a = Inr out \<and> (\<forall>t\<in>set out. length t = length a)))"
proof (intro conjI impI)
  show "ArgPattern_Expand [] = Inl IndexOutOfRange" by (simp add: ArgPattern_Expand_def)
next
  assume "a \<noteq> []"
  then obtain out where out: "argExpander (map Pattern_Expand a) = Inr out"
    using argExpander_nonempty [of "map Pattern_Expand a"] by auto
  from argExpander_lengths [OF out] out
  show "\<exists>out. ArgPattern_Expand a = Inr out \<and> (\<forall>t\<in>set out. length t = length a)"
    by (simp add: ArgPattern_Expand_def)
qed

theorem Expand_returns_witness:
  "ArgPattern_Expand [] = Inl IndexOutOfRange \<and>
   [\<lparr>Prefix = ''data'', Suffix = [], Seq = [''1'', ''2'', ''3'']\<rparr>] \<noteq> [] \<and>
   (\<exists>out. ArgPattern_Expand [\<lparr>Prefix = ''data'', Suffix = [], Seq = [''1'', ''2'', ''3'']\<rparr>] = Inr out \<and>
      (\<forall>t\<in>set out. length t = 1))"
  using Expand_returns_iff_nonempty [of "[\<lparr>Prefix = ''data'', Suffix = [], Seq = [''1'', ''2'', ''3'']\<rparr>]"]
  by simp

end
